theory Spec2Isabelle
  imports Main
begin

section \<open>Text: Python strings as lists of code points\<close>

text \<open>
  A Python \<open>str\<close> is a sequence of Unicode code points, so a string is modelled as a
  list of natural numbers (one per code point), not as a byte string.
\<close>

type_synonym ustring = "nat list"

definition ascii :: "string \<Rightarrow> ustring" where
  "ascii s = map (of_char :: char \<Rightarrow> nat) s"

text \<open>
  The white space of \<open>str.strip()\<close>, \<open>str.split()\<close> and of \<open>\s\<close> in a \<open>str\<close>
  pattern: the code points for which \<open>str.isspace()\<close> holds.
\<close>

definition is_space :: "nat \<Rightarrow> bool" where
  "is_space c \<longleftrightarrow>
     (9 \<le> c \<and> c \<le> 13) \<or> (28 \<le> c \<and> c \<le> 32) \<or> c = 133 \<or> c = 160 \<or> c = 5760 \<or>
     (8192 \<le> c \<and> c \<le> 8202) \<or> c = 8232 \<or> c = 8233 \<or> c = 8239 \<or> c = 8287 \<or> c = 12288"

definition NBSP :: nat where "NBSP = 160"     \<comment> \<open>U+00A0\<close>
definition BOM :: nat where "BOM = 65279"     \<comment> \<open>U+FEFF\<close>
definition LRM :: nat where "LRM = 8206"      \<comment> \<open>U+200E\<close>
definition RLM :: nat where "RLM = 8207"      \<comment> \<open>U+200F\<close>
definition LRE :: nat where "LRE = 8234"      \<comment> \<open>U+202A\<close>
definition RLE :: nat where "RLE = 8235"      \<comment> \<open>U+202B\<close>
definition PDF :: nat where "PDF = 8236"      \<comment> \<open>U+202C\<close>

text \<open>\<open>s.replace(a, b)\<close> for one-character \<open>a\<close> and \<open>b\<close>, and \<open>s.replace(a, "")\<close>.\<close>

definition replace_char :: "nat \<Rightarrow> nat \<Rightarrow> ustring \<Rightarrow> ustring" where
  "replace_char a b s = map (\<lambda>c. if c = a then b else c) s"

definition remove_char :: "nat \<Rightarrow> ustring \<Rightarrow> ustring" where
  "remove_char a s = filter (\<lambda>c. c \<noteq> a) s"

text \<open>\<open>s.lstrip()\<close>, \<open>s.rstrip()\<close>, \<open>s.strip()\<close> without argument.\<close>

definition lstrip :: "ustring \<Rightarrow> ustring" where
  "lstrip s = dropWhile is_space s"

definition rstrip :: "ustring \<Rightarrow> ustring" where
  "rstrip s = rev (dropWhile is_space (rev s))"

definition strip :: "ustring \<Rightarrow> ustring" where
  "strip s = rstrip (lstrip s)"

text \<open>
  \<open>s.split()\<close> without argument: the maximal runs of non-space characters, in order.
  The first argument is the run being read.
\<close>

fun split_ws :: "ustring \<Rightarrow> ustring \<Rightarrow> ustring list" where
  "split_ws cur [] = (if cur = [] then [] else [cur])"
| "split_ws cur (c # cs) =
     (if is_space c then (if cur = [] then split_ws [] cs else cur # split_ws [] cs)
      else split_ws (cur @ [c]) cs)"

definition split :: "ustring \<Rightarrow> ustring list" where
  "split s = split_ws [] s"

text \<open>\<open>sep.join(xs)\<close>.\<close>

fun join :: "ustring \<Rightarrow> ustring list \<Rightarrow> ustring" where
  "join sep [] = []"
| "join sep [x] = x"
| "join sep (x # y # ys) = x @ sep @ join sep (y # ys)"

text \<open>
  \<^verbatim>\<open>
  def _norm_space(s):
      s = (s or "").replace(NBSP, " ").strip()
      s = s.replace(LRM, "").replace(RLM, "").replace(LRE, "")
           .replace(RLE, "").replace(PDF, "")
      s = " ".join(s.split())
      return s
  \<close>
\<close>

definition norm_space :: "ustring \<Rightarrow> ustring" where
  "norm_space s =
     (let s1 = strip (replace_char NBSP 32 s);
          s2 = remove_char PDF (remove_char RLE (remove_char LRE (remove_char RLM (remove_char LRM s1))));
          s3 = join [32] (split s2)
      in s3)"

text \<open>\<open>s.rstrip(chars)\<close> with an argument, and \<open>s.split(sep)\<close> for a one-character \<open>sep\<close>.\<close>

definition rstrip_chars :: "ustring \<Rightarrow> ustring \<Rightarrow> ustring" where
  "rstrip_chars chars s = rev (dropWhile (\<lambda>c. c \<in> set chars) (rev s))"

fun split_on :: "nat \<Rightarrow> ustring \<Rightarrow> ustring \<Rightarrow> ustring list" where
  "split_on sep cur [] = [cur]"
| "split_on sep cur (c # cs) =
     (if c = sep then cur # split_on sep [] cs else split_on sep (cur @ [c]) cs)"

definition split_sep :: "nat \<Rightarrow> ustring \<Rightarrow> ustring list" where
  "split_sep sep s = split_on sep [] s"

text \<open>
  \<open>text.splitlines()\<close>: the text is cut at every line boundary (LF, CR, CR LF, VT, FF,
  FS, GS, RS, NEL, LS, PS); the boundaries are dropped, and a boundary at the very end
  opens no further line.
\<close>

definition is_linebreak :: "nat \<Rightarrow> bool" where
  "is_linebreak c \<longleftrightarrow>
     (10 \<le> c \<and> c \<le> 13) \<or> (28 \<le> c \<and> c \<le> 30) \<or> c = 133 \<or> c = 8232 \<or> c = 8233"

fun splitlines_from :: "ustring \<Rightarrow> ustring \<Rightarrow> ustring list" where
  "splitlines_from cur [] = (if cur = [] then [] else [cur])"
| "splitlines_from cur [c] =
     (if is_linebreak c then [cur] else [cur @ [c]])"
| "splitlines_from cur (c # d # cs) =
     (if c = 13 \<and> d = 10 then cur # splitlines_from [] cs
      else if is_linebreak c then cur # splitlines_from [] (d # cs)
      else splitlines_from (cur @ [c]) (d # cs))"

definition splitlines :: "ustring \<Rightarrow> ustring list" where
  "splitlines s = splitlines_from [] s"

section \<open>Regular expressions with Python's backtracking order\<close>

text \<open>
  The interpreter's Unicode database is not part of the repository: \<open>\d\<close> in a \<open>str\<close>
  pattern matches every decimal digit of Unicode (category Nd), and \<open>int\<close> reads them.
  The decimal value of the code points from 128 on is therefore a parameter of the model.
  Below 128 the digits are \<open>0\<close> to \<open>9\<close>; white space and the invisible marks are in
  other categories (Zs, Zl, Zp, Cc, Cf), so they are digits under no database, and a
  decimal value is below ten.
\<close>

type_synonym unidata = "nat \<Rightarrow> nat option"

definition is_mark :: "nat \<Rightarrow> bool" where
  "is_mark c \<longleftrightarrow> c = BOM \<or> c = LRM \<or> c = RLM \<or> c = LRE \<or> c = RLE \<or> c = PDF"

definition digit_val :: "unidata \<Rightarrow> nat \<Rightarrow> nat option" where
  "digit_val U c =
     (if c < 128 then (if 48 \<le> c \<and> c \<le> 57 then Some (c - 48) else None)
      else if is_space c \<or> is_mark c then None
      else (case U c of None \<Rightarrow> None | Some v \<Rightarrow> if v < 10 then Some v else None))"

definition is_digit :: "unidata \<Rightarrow> nat \<Rightarrow> bool" where
  "is_digit U c \<longleftrightarrow> digit_val U c \<noteq> None"

text \<open>
  The fragment of the pattern language that the patterns of the program use: a
  literal, a character class, a quantified character class (minimum, optional maximum,
  greedy or lazy), a numbered capture group, concatenation, a greedy optional group, an
  alternative and the end anchor \<open>$\<close>.
\<close>

datatype rx =
    Eps
  | Lit nat
  | Cls "nat \<Rightarrow> bool"
  | Rep "nat \<Rightarrow> bool" nat "nat option" bool
  | Grp nat rx
  | Seq rx rx
  | Opt rx
  | Alt rx rx
  | Eol

type_synonym groups = "nat \<Rightarrow> ustring option"

text \<open>
  The numbers of characters a quantified class may take at the head of \<open>s\<close>, in the order
  the backtracking engine tries them: longest first when greedy, shortest first when lazy.
\<close>

definition rep_counts :: "(nat \<Rightarrow> bool) \<Rightarrow> nat \<Rightarrow> nat option \<Rightarrow> bool \<Rightarrow> ustring \<Rightarrow> nat list" where
  "rep_counts p lo hi greedy s =
     (let n = length (takeWhile p s);
          m = (case hi of None \<Rightarrow> n | Some h \<Rightarrow> min h n);
          ks = [lo ..< Suc m]
      in if greedy then rev ks else ks)"

text \<open>
  \<open>matches r s g\<close> lists every way \<open>r\<close> can match at the head of \<open>s\<close>, as the input left
  over and the groups captured, in the order in which backtracking reaches them. The
  match that \<open>re\<close> reports is the first of the list. \<open>$\<close> holds at the end of the
  string and before a line feed that ends the string.
\<close>

fun matches :: "rx \<Rightarrow> ustring \<Rightarrow> groups \<Rightarrow> (ustring \<times> groups) list" where
  "matches Eps s g = [(s, g)]"
| "matches (Lit c) s g = (case s of [] \<Rightarrow> [] | x # xs \<Rightarrow> if x = c then [(xs, g)] else [])"
| "matches (Cls p) s g = (case s of [] \<Rightarrow> [] | x # xs \<Rightarrow> if p x then [(xs, g)] else [])"
| "matches (Rep p lo hi greedy) s g = map (\<lambda>k. (drop k s, g)) (rep_counts p lo hi greedy s)"
| "matches (Grp n r) s g =
     map (\<lambda>(s', g'). (s', g'(n \<mapsto> take (length s - length s') s))) (matches r s g)"
| "matches (Seq r1 r2) s g = concat (map (\<lambda>(s', g'). matches r2 s' g') (matches r1 s g))"
| "matches (Opt r) s g = matches r s g @ [(s, g)]"
| "matches (Alt r1 r2) s g = matches r1 s g @ matches r2 s g"
| "matches Eol s g = (if s = [] \<or> s = [10] then [(s, g)] else [])"

fun seqs :: "rx list \<Rightarrow> rx" where
  "seqs [] = Eps"
| "seqs [r] = r"
| "seqs (r # rs) = Seq r (seqs rs)"

text \<open>\<open>pattern.match(s)\<close>: anchored at the start of \<open>s\<close>, where a leading \<open>^\<close> holds.\<close>

definition re_match :: "rx \<Rightarrow> ustring \<Rightarrow> (ustring \<times> groups) option" where
  "re_match r s = (case matches r s Map.empty of [] \<Rightarrow> None | m # _ \<Rightarrow> Some m)"

section \<open>The header dialects\<close>

definition digits :: "unidata \<Rightarrow> nat \<Rightarrow> nat \<Rightarrow> rx" where
  "digits U lo hi = Rep (is_digit U) lo (Some hi) True"

definition spaces1 :: rx where
  "spaces1 = Rep is_space 1 None True"

definition spaces0 :: rx where
  "spaces0 = Rep is_space 0 None True"

definition any_text :: rx where
  "any_text = Rep (\<lambda>c. c \<noteq> 10) 0 None True"

definition author_rx :: rx where
  "author_rx = Rep (\<lambda>c. c \<noteq> 58) 1 None False"

definition iso_date :: "unidata \<Rightarrow> rx" where
  "iso_date U = seqs [digits U 4 4, Lit 45, digits U 2 2, Lit 45, digits U 2 2]"

definition iso_time :: "unidata \<Rightarrow> rx" where
  "iso_time U = seqs [digits U 2 2, Lit 58, digits U 2 2, Lit 58, digits U 2 2]"

definition de_date :: "unidata \<Rightarrow> rx" where
  "de_date U = seqs [digits U 1 2, Lit 46, digits U 1 2, Lit 46, digits U 2 4]"

definition de_time :: "unidata \<Rightarrow> rx" where
  "de_time U = seqs [digits U 1 2, Lit 58, digits U 2 2]"

definition dash :: "nat \<Rightarrow> bool" where
  "dash c \<longleftrightarrow> c = 45 \<or> c = 8211"

text \<open>
  \<^verbatim>\<open>_pat_iso = ^(\d{4}-\d{2}-\d{2})[ T](\d{2}:\d{2}:\d{2})\s+([^:]+?):\s*(.*)$\<close>
\<close>

definition pat_iso :: "unidata \<Rightarrow> rx" where
  "pat_iso U = seqs
     [Grp 1 (iso_date U), Cls (\<lambda>c. c = 32 \<or> c = 84), Grp 2 (iso_time U),
      spaces1, Grp 3 author_rx, Lit 58, spaces0, Grp 4 any_text, Eol]"

text \<open>
  \<^verbatim>\<open>_pat_de = ^(\d{1,2}\.\d{1,2}\.\d{2,4}),\s+(\d{1,2}:\d{2})(?::(\d{2}))?\s+-\s+([^:]+?):\s*(.*)$\<close>
\<close>

definition pat_de :: "unidata \<Rightarrow> rx" where
  "pat_de U = seqs
     [Grp 1 (de_date U), Lit 44, spaces1, Grp 2 (de_time U),
      Opt (Seq (Lit 58) (Grp 3 (digits U 2 2))),
      spaces1, Lit 45, spaces1, Grp 4 author_rx, Lit 58, spaces0, Grp 5 any_text, Eol]"

text \<open>
  \<^verbatim>\<open>_pat_bracket = ^\[(\d{1,2}\.\d{1,2}\.\d{2,4}),\s+(\d{1,2}:\d{2})(?::(\d{2}))?\]\s+([^:]+?):\s*(.*)$\<close>
\<close>

definition pat_bracket :: "unidata \<Rightarrow> rx" where
  "pat_bracket U = seqs
     [Lit 91, Grp 1 (de_date U), Lit 44, spaces1, Grp 2 (de_time U),
      Opt (Seq (Lit 58) (Grp 3 (digits U 2 2))),
      Lit 93, spaces1, Grp 4 author_rx, Lit 58, spaces0, Grp 5 any_text, Eol]"

text \<open>
  The patterns for lines without an author; the named groups \<open>date\<close>, \<open>time\<close>, \<open>sec\<close>
  and \<open>text\<close> are numbered in the order in which they open.
  \<^verbatim>\<open>_pat_iso_sys = ^(?P<date>\d{4}-\d{2}-\d{2})[ T](?P<time>\d{2}:\d{2}:\d{2})(?:\s+[-EN DASH]\s+|\s+)(?P<text>.*)$\<close>
  \<^verbatim>\<open>_pat_de_sys = ^(?P<date>\d{1,2}\.\d{1,2}\.\d{2,4}),\s+(?P<time>\d{1,2}:\d{2})(?::(?P<sec>\d{2}))?\s+[-EN DASH]\s+(?P<text>.*)$\<close>
  \<^verbatim>\<open>_pat_bracket_sys = ^\[(?P<date>\d{1,2}\.\d{1,2}\.\d{2,4}),\s+(?P<time>\d{1,2}:\d{2})(?::(?P<sec>\d{2}))?\]\s+(?P<text>.*)$\<close>
\<close>

definition pat_iso_sys :: "unidata \<Rightarrow> rx" where
  "pat_iso_sys U = seqs
     [Grp 1 (iso_date U), Cls (\<lambda>c. c = 32 \<or> c = 84), Grp 2 (iso_time U),
      Alt (seqs [spaces1, Cls dash, spaces1]) spaces1, Grp 3 any_text, Eol]"

definition pat_de_sys :: "unidata \<Rightarrow> rx" where
  "pat_de_sys U = seqs
     [Grp 1 (de_date U), Lit 44, spaces1, Grp 2 (de_time U),
      Opt (Seq (Lit 58) (Grp 3 (digits U 2 2))),
      spaces1, Cls dash, spaces1, Grp 4 any_text, Eol]"

definition pat_bracket_sys :: "unidata \<Rightarrow> rx" where
  "pat_bracket_sys U = seqs
     [Lit 91, Grp 1 (de_date U), Lit 44, spaces1, Grp 2 (de_time U),
      Opt (Seq (Lit 58) (Grp 3 (digits U 2 2))),
      Lit 93, spaces1, Grp 4 any_text, Eol]"

section \<open>Dates and times\<close>

datatype error = ValueError

record datetime =
  year :: nat
  month :: nat
  day :: nat
  hour :: nat
  minute :: nat
  second :: nat

definition is_leap :: "nat \<Rightarrow> bool" where
  "is_leap y \<longleftrightarrow> y mod 4 = 0 \<and> (y mod 100 \<noteq> 0 \<or> y mod 400 = 0)"

definition days_in_month :: "nat \<Rightarrow> nat \<Rightarrow> nat" where
  "days_in_month y m =
     (if m = 2 then (if is_leap y then 29 else 28)
      else if m = 4 \<or> m = 6 \<or> m = 9 \<or> m = 11 then 30 else 31)"

text \<open>
  \<open>dt.datetime(year, month, day, hour, minute, second)\<close>: the constructor raises
  \<open>ValueError\<close> for a field out of range.
\<close>

definition valid_datetime :: "nat \<Rightarrow> nat \<Rightarrow> nat \<Rightarrow> nat \<Rightarrow> nat \<Rightarrow> nat \<Rightarrow> bool" where
  "valid_datetime y mo d h mi s \<longleftrightarrow>
     1 \<le> y \<and> y \<le> 9999 \<and> 1 \<le> mo \<and> mo \<le> 12 \<and> 1 \<le> d \<and> d \<le> days_in_month y mo \<and>
     h \<le> 23 \<and> mi \<le> 59 \<and> s \<le> 59"

definition mk_datetime :: "nat \<Rightarrow> nat \<Rightarrow> nat \<Rightarrow> nat \<Rightarrow> nat \<Rightarrow> nat \<Rightarrow> error + datetime" where
  "mk_datetime y mo d h mi s =
     (if valid_datetime y mo d h mi s
      then Inr \<lparr>year = y, month = mo, day = d, hour = h, minute = mi, second = s\<rparr>
      else Inl ValueError)"

text \<open>
  \<open>int(s)\<close> on the strings that reach it here, which are runs of decimal digits: the
  decimal value. Any other string is answered with \<open>ValueError\<close>.
\<close>

fun int_from :: "unidata \<Rightarrow> nat \<Rightarrow> ustring \<Rightarrow> error + nat" where
  "int_from U acc [] = Inr acc"
| "int_from U acc (c # cs) =
     (case digit_val U c of None \<Rightarrow> Inl ValueError | Some v \<Rightarrow> int_from U (10 * acc + v) cs)"

definition py_int :: "unidata \<Rightarrow> ustring \<Rightarrow> error + nat" where
  "py_int U s = (if s = [] then Inl ValueError else int_from U 0 s)"

text \<open>
  \<open>dt.datetime.fromisoformat\<close> on a string of the shape \<open>YYYY-MM-DD HH:MM:SS\<close>, the
  only shape \<open>_pat_iso\<close> hands to it. It reads ASCII digits only (CPython 3.7 to 3.13)
  and raises \<open>ValueError\<close> otherwise, and for a field out of range.
\<close>

definition ascii_unidata :: unidata where
  "ascii_unidata = (\<lambda>c. None)"

definition fromisoformat :: "ustring \<Rightarrow> error + datetime" where
  "fromisoformat s =
     (if length s = 19 \<and> s ! 4 = 45 \<and> s ! 7 = 45 \<and> s ! 13 = 58 \<and> s ! 16 = 58 then
        (case py_int ascii_unidata (take 4 s) of Inl e \<Rightarrow> Inl e | Inr y \<Rightarrow>
         case py_int ascii_unidata (take 2 (drop 5 s)) of Inl e \<Rightarrow> Inl e | Inr mo \<Rightarrow>
         case py_int ascii_unidata (take 2 (drop 8 s)) of Inl e \<Rightarrow> Inl e | Inr d \<Rightarrow>
         case py_int ascii_unidata (take 2 (drop 11 s)) of Inl e \<Rightarrow> Inl e | Inr h \<Rightarrow>
         case py_int ascii_unidata (take 2 (drop 14 s)) of Inl e \<Rightarrow> Inl e | Inr mi \<Rightarrow>
         case py_int ascii_unidata (take 2 (drop 17 s)) of Inl e \<Rightarrow> Inl e | Inr sec \<Rightarrow>
           mk_datetime y mo d h mi sec)
      else Inl ValueError)"

text \<open>
  \<^verbatim>\<open>
  def parse_dt_de(d, t_hm, t_s):
      dd, mm, yy = d.split(".")
      day = int(dd); month = int(mm); year = int(yy)
      if year < 100:
          year += 2000
      hh, mi = t_hm.split(":")
      ss = int(t_s) if t_s is not None else 0
      return dt.datetime(year, month, day, int(hh), int(mi), ss)
  \<close>
  An unpacking of the wrong number of parts raises \<open>ValueError\<close> as well.
\<close>

definition parse_dt_de :: "unidata \<Rightarrow> ustring \<Rightarrow> ustring \<Rightarrow> ustring option \<Rightarrow> error + datetime" where
  "parse_dt_de U d t_hm t_s =
     (case split_sep 46 d of
        [dd, mm, yy] \<Rightarrow>
          (case py_int U dd of Inl e \<Rightarrow> Inl e | Inr dv \<Rightarrow>
           case py_int U mm of Inl e \<Rightarrow> Inl e | Inr mv \<Rightarrow>
           case py_int U yy of Inl e \<Rightarrow> Inl e | Inr y0 \<Rightarrow>
           let yv = (if y0 < 100 then y0 + 2000 else y0) in
           (case split_sep 58 t_hm of
              [hh, mi] \<Rightarrow>
                (case (case t_s of None \<Rightarrow> Inr 0 | Some x \<Rightarrow> py_int U x) of Inl e \<Rightarrow> Inl e | Inr ss \<Rightarrow>
                 case py_int U hh of Inl e \<Rightarrow> Inl e | Inr hv \<Rightarrow>
                 case py_int U mi of Inl e \<Rightarrow> Inl e | Inr miv \<Rightarrow>
                   mk_datetime yv mv dv hv miv ss)
            | _ \<Rightarrow> Inl ValueError))
      | _ \<Rightarrow> Inl ValueError)"

section \<open>The message stream builder\<close>

record message =
  ts :: datetime
  author :: ustring
  mtext :: ustring

text \<open>
  The removal of the invisible marks from a non-empty line, before any matching:
  \<^verbatim>\<open>
  line = (line.replace(BOM, "").replace(LRM, "").replace(RLM, "")
              .replace(LRE, "").replace(RLE, "").replace(PDF, ""))
  \<close>
\<close>

definition strip_marks :: "ustring \<Rightarrow> ustring" where
  "strip_marks s =
     remove_char PDF (remove_char RLE (remove_char LRE
       (remove_char RLM (remove_char LRM (remove_char BOM s)))))"

text \<open>
  The three attempts of \<open>parse_messages\<close> on one non-empty line, in the order of the
  source: \<open>_pat_iso\<close>, \<open>_pat_de\<close>, \<open>_pat_bracket\<close>. The result is the new message, or
  \<open>None\<close> when no pattern matches, or the \<open>ValueError\<close> that the conversion of the
  time stamp raises (nothing in \<open>parse_messages\<close> catches it). A group that took no
  part in the match is \<open>None\<close> in \<open>m.groups()\<close>; only the seconds can be.
\<close>

definition header_iso :: "groups \<Rightarrow> error + message" where
  "header_iso g =
     (case (g 1, g 2, g 3, g 4) of
        (Some d_s, Some t_s, Some a, Some x) \<Rightarrow>
          (case fromisoformat (d_s @ [32] @ t_s) of
             Inl e \<Rightarrow> Inl e
           | Inr t \<Rightarrow> Inr \<lparr>ts = t, author = norm_space a, mtext = x\<rparr>)
      | _ \<Rightarrow> Inl ValueError)"

definition header_de :: "unidata \<Rightarrow> groups \<Rightarrow> error + message" where
  "header_de U g =
     (case (g 1, g 2, g 4, g 5) of
        (Some d, Some t_hm, Some a, Some x) \<Rightarrow>
          (case parse_dt_de U d t_hm (g 3) of
             Inl e \<Rightarrow> Inl e
           | Inr t \<Rightarrow> Inr \<lparr>ts = t, author = norm_space a, mtext = x\<rparr>)
      | _ \<Rightarrow> Inl ValueError)"

definition match_header :: "unidata \<Rightarrow> ustring \<Rightarrow> error + message option" where
  "match_header U line =
     (case re_match (pat_iso U) line of
        Some (_, g) \<Rightarrow> map_sum id Some (header_iso g)
      | None \<Rightarrow>
     (case re_match (pat_de U) line of
        Some (_, g) \<Rightarrow> map_sum id Some (header_de U g)
      | None \<Rightarrow>
     (case re_match (pat_bracket U) line of
        Some (_, g) \<Rightarrow> map_sum id Some (header_de U g)
      | None \<Rightarrow> Inr None)))"

text \<open>
  The state of the loop. In the source the list \<open>msgs\<close> and the variable \<open>last\<close> share
  one object: \<open>last\<close> is the message appended most recently, and \<open>last.text += ...\<close>
  changes it inside the list. The model keeps that shared message once, as \<open>lastm\<close>, next
  to the messages appended before it; \<open>all_msgs\<close> is the list \<open>msgs\<close> of the source.
\<close>

type_synonym pstate = "message list \<times> message option"

definition all_msgs :: "pstate \<Rightarrow> message list" where
  "all_msgs st = (case st of (before, lastm) \<Rightarrow> before @ (case lastm of None \<Rightarrow> [] | Some m \<Rightarrow> [m]))"

definition append_text :: "ustring \<Rightarrow> pstate \<Rightarrow> pstate" where
  "append_text x st =
     (case st of (before, lastm) \<Rightarrow>
        (before, case lastm of None \<Rightarrow> None | Some m \<Rightarrow> Some (m\<lparr>mtext := mtext m @ x\<rparr>)))"

definition open_msg :: "message \<Rightarrow> pstate \<Rightarrow> pstate" where
  "open_msg m st = (all_msgs st, Some m)"

text \<open>
  The head of the loop body:
  \<^verbatim>\<open>
  line = line.rstrip("\n")
  if line:
      line = <the line without the invisible marks>
  \<close>
\<close>

definition clean_line :: "ustring \<Rightarrow> ustring" where
  "clean_line raw =
     (let line = rstrip_chars [10] raw
      in if line \<noteq> [] then strip_marks line else line)"

text \<open>
  One turn of the loop of \<open>parse_messages\<close>, after that head:
  \<^verbatim>\<open>
  if not line:
      if last is not None: last.text += "\n"
      continue
  <the three patterns; on a match: msgs.append(msg); last = msg; continue>
  if last is not None: last.text += "\n" + line
  \<close>
\<close>

definition step :: "unidata \<Rightarrow> pstate \<Rightarrow> ustring \<Rightarrow> error + pstate" where
  "step U st raw =
     (let line = clean_line raw
      in if line = [] then Inr (append_text [10] st)
         else (case match_header U line of
                 Inl e \<Rightarrow> Inl e
               | Inr (Some m) \<Rightarrow> Inr (open_msg m st)
               | Inr None \<Rightarrow> Inr (append_text (10 # line) st)))"

fun run :: "unidata \<Rightarrow> pstate \<Rightarrow> ustring list \<Rightarrow> error + pstate" where
  "run U st [] = Inr st"
| "run U st (l # ls) = (case step U st l of Inl e \<Rightarrow> Inl e | Inr st' \<Rightarrow> run U st' ls)"

definition parse_lines :: "unidata \<Rightarrow> ustring list \<Rightarrow> error + message list" where
  "parse_lines U ls = map_sum id all_msgs (run U ([], None) ls)"

text \<open>
  \<open>parse_messages\<close> on the decoded text of the file (the reading and decoding of the
  file are outside the model).
\<close>

definition parse_messages :: "unidata \<Rightarrow> ustring \<Rightarrow> error + message list" where
  "parse_messages U text = parse_lines U (splitlines text)"

section \<open>URL extraction\<close>

text \<open>
  \<^verbatim>\<open>_url_re = re.compile(r"(https?://[^\s<>\]]+)", re.IGNORECASE)\<close>
  Under \<open>IGNORECASE\<close> a letter of the pattern matches both of its cases; \<open>s\<close> also
  matches the long s (U+017F), which has the same case folding.
\<close>

definition url_char :: "nat \<Rightarrow> bool" where
  "url_char c \<longleftrightarrow> \<not> (is_space c \<or> c = 60 \<or> c = 62 \<or> c = 93)"

definition url_re :: rx where
  "url_re = Grp 1 (seqs
     [Cls (\<lambda>c. c = 104 \<or> c = 72), Cls (\<lambda>c. c = 116 \<or> c = 84), Cls (\<lambda>c. c = 116 \<or> c = 84),
      Cls (\<lambda>c. c = 112 \<or> c = 80), Opt (Cls (\<lambda>c. c = 115 \<or> c = 83 \<or> c = 383)),
      Lit 58, Lit 47, Lit 47, Rep url_char 1 None True])"

text \<open>
  \<open>pattern.finditer(s)\<close>, for the text of group 1 of every match: the scan tries a match
  at each position from left to right, and goes on after the end of a match. \<open>skip\<close>
  counts the characters that the last match still covers.
\<close>

fun finditer :: "rx \<Rightarrow> nat \<Rightarrow> ustring \<Rightarrow> ustring list" where
  "finditer r skip [] = []"
| "finditer r skip (c # cs) =
     (if 0 < skip then finditer r (skip - 1) cs
      else (case re_match r (c # cs) of
              None \<Rightarrow> finditer r 0 cs
            | Some (rest, g) \<Rightarrow>
                (case g 1 of None \<Rightarrow> [] | Some u \<Rightarrow> [u]) @
                finditer r (length (c # cs) - length rest - 1) cs))"

definition url_punct :: ustring where
  "url_punct = [41, 46, 44, 59, 58, 33, 63, 93, 34, 39]"

text \<open>
  The second loop of \<open>extract_urls\<close>, with its set \<open>seen\<close> and its list \<open>out\<close>:
  \<^verbatim>\<open>
  for u in urls:
      if u not in seen:
          seen.add(u)
          out.append(u)
  \<close>
\<close>

fun unique_stable :: "ustring set \<Rightarrow> ustring list \<Rightarrow> ustring list \<Rightarrow> ustring list" where
  "unique_stable seen out [] = out"
| "unique_stable seen out (u # us) =
     (if u \<notin> seen then unique_stable (insert u seen) (out @ [u]) us
      else unique_stable seen out us)"

text \<open>
  \<^verbatim>\<open>
  def extract_urls(text):
      urls = []
      for m in _url_re.finditer(text or ""):
          u = m.group(1).rstrip(").,;:!?]\"'")
          urls.append(u)
      <the second loop>
      return out
  \<close>
\<close>

definition extract_urls :: "ustring \<Rightarrow> ustring list" where
  "extract_urls text =
     unique_stable {} [] (map (rstrip_chars url_punct) (finditer url_re 0 text))"

section \<open>Link previews\<close>












section \<open>Notions used in the statements\<close>

text \<open>The direction marks that the normalizer removes, and the runs that \<open>split\<close> returns.\<close>

definition is_dirmark :: "nat \<Rightarrow> bool" where
  "is_dirmark c \<longleftrightarrow> c = LRM \<or> c = RLM \<or> c = LRE \<or> c = RLE \<or> c = PDF"

definition token :: "ustring \<Rightarrow> bool" where
  "token t \<longleftrightarrow> t \<noteq> [] \<and> (\<forall>c \<in> set t. \<not> is_space c)"

text \<open>The shape of every result of the normalizer: tokens joined by single spaces.\<close>

definition normal_form :: "ustring \<Rightarrow> bool" where
  "normal_form s \<longleftrightarrow>
     (\<exists>toks. s = join [32] toks \<and> (\<forall>t \<in> set toks. token t \<and> (\<forall>c \<in> set t. \<not> is_dirmark c)))"

text \<open>
  What one raw line is to the loop: a header, when one of the three patterns matches the
  cleaned line and the time stamp converts, and otherwise (a blank line, or a line that
  no pattern matches) something to add to the open message.
\<close>

definition is_header :: "unidata \<Rightarrow> ustring \<Rightarrow> message \<Rightarrow> bool" where
  "is_header U raw m \<longleftrightarrow> clean_line raw \<noteq> [] \<and> match_header U (clean_line raw) = Inr (Some m)"

definition non_header :: "unidata \<Rightarrow> ustring \<Rightarrow> bool" where
  "non_header U raw \<longleftrightarrow> clean_line raw = [] \<or> match_header U (clean_line raw) = Inr None"

text \<open>
  A raw line on which the loop fails: one of the patterns matches the cleaned line, and
  the conversion of its time stamp raises.
\<close>

definition raises :: "unidata \<Rightarrow> ustring \<Rightarrow> bool" where
  "raises U raw \<longleftrightarrow> clean_line raw \<noteq> [] \<and> match_header U (clean_line raw) = Inl ValueError"

text \<open>
  A line of the second dialect, \<open>DD.MM.YY, H:MM[:SS] - <author>: <text>\<close>, put together
  from its fields: day, month, year, hour, minute, optional seconds, the separator
  character between time and author, the author and what follows the colon.
\<close>

definition de_line ::
  "ustring \<Rightarrow> ustring \<Rightarrow> ustring \<Rightarrow> ustring \<Rightarrow> ustring \<Rightarrow> ustring option \<Rightarrow> nat \<Rightarrow> ustring \<Rightarrow> ustring \<Rightarrow> ustring" where
  "de_line dd mm yy hh mi ss sep a w =
     dd @ [46] @ mm @ [46] @ yy @ [44, 32] @ hh @ [58] @ mi @
     (case ss of None \<Rightarrow> [] | Some s \<Rightarrow> 58 # s) @ [32, sep, 32] @ a @ [58] @ w"

definition digit_run :: "unidata \<Rightarrow> nat \<Rightarrow> nat \<Rightarrow> ustring \<Rightarrow> bool" where
  "digit_run U lo hi s \<longleftrightarrow> lo \<le> length s \<and> length s \<le> hi \<and> list_all (is_digit U) s"

definition de_fields ::
  "unidata \<Rightarrow> ustring \<Rightarrow> ustring \<Rightarrow> ustring \<Rightarrow> ustring \<Rightarrow> ustring \<Rightarrow> ustring option \<Rightarrow> bool" where
  "de_fields U dd mm yy hh mi ss \<longleftrightarrow>
     digit_run U 1 2 dd \<and> digit_run U 1 2 mm \<and> digit_run U 2 4 yy \<and>
     digit_run U 1 2 hh \<and> digit_run U 2 2 mi \<and>
     (case ss of None \<Rightarrow> True | Some s \<Rightarrow> digit_run U 2 2 s)"

text \<open>
  A line of the first dialect, \<open>YYYY-MM-DD HH:MM:SS author: text\<close> (with a space or a
  \<open>T\<close> between date and time), and a line of the third dialect,
  \<open>[DD.MM.YYYY, H:MM[:SS]] author: text\<close>, put together from their fields.
\<close>

definition iso_line ::
  "ustring \<Rightarrow> ustring \<Rightarrow> ustring \<Rightarrow> nat \<Rightarrow> ustring \<Rightarrow> ustring \<Rightarrow> ustring \<Rightarrow> ustring \<Rightarrow> ustring \<Rightarrow> ustring" where
  "iso_line y mo d sp h mi s a w =
     y @ [45] @ mo @ [45] @ d @ [sp] @ h @ [58] @ mi @ [58] @ s @ [32] @ a @ [58] @ w"

definition iso_fields ::
  "unidata \<Rightarrow> ustring \<Rightarrow> ustring \<Rightarrow> ustring \<Rightarrow> ustring \<Rightarrow> ustring \<Rightarrow> ustring \<Rightarrow> bool" where
  "iso_fields U y mo d h mi s \<longleftrightarrow>
     digit_run U 4 4 y \<and> digit_run U 2 2 mo \<and> digit_run U 2 2 d \<and>
     digit_run U 2 2 h \<and> digit_run U 2 2 mi \<and> digit_run U 2 2 s"

definition bracket_line ::
  "ustring \<Rightarrow> ustring \<Rightarrow> ustring \<Rightarrow> ustring \<Rightarrow> ustring \<Rightarrow> ustring option \<Rightarrow> ustring \<Rightarrow> ustring \<Rightarrow> ustring" where
  "bracket_line dd mm yy hh mi ss a w =
     [91] @ dd @ [46] @ mm @ [46] @ yy @ [44, 32] @ hh @ [58] @ mi @
     (case ss of None \<Rightarrow> [] | Some s \<Rightarrow> 58 # s) @ [93, 32] @ a @ [58] @ w"

text \<open>The number that a run of digits denotes (\<open>0\<close> for any other string).\<close>

definition int_of :: "unidata \<Rightarrow> ustring \<Rightarrow> nat" where
  "int_of U s = (case py_int U s of Inl e \<Rightarrow> 0 | Inr n \<Rightarrow> n)"

text \<open>
  What the claim asks of the result, in its own words: the entries of a list at the
  places where they occur for the first time, in the order of these places.
\<close>

definition first_occurrences :: "'a list \<Rightarrow> 'a list" where
  "first_occurrences xs =
     map (nth xs) (filter (\<lambda>i. xs ! i \<notin> set (take i xs)) [0..<length xs])"

text \<open>
  A token of the pattern: \<open>http\<close> or \<open>https\<close> in any case, then \<open>://\<close>, then at least
  one character, none of them white space or one of \<open><\<close>, \<open>>\<close>, \<open>]\<close>.
\<close>

fun url_token :: "ustring \<Rightarrow> bool" where
  "url_token (c1 # c2 # c3 # c4 # r) =
     ((c1 = 104 \<or> c1 = 72) \<and> (c2 = 116 \<or> c2 = 84) \<and> (c3 = 116 \<or> c3 = 84) \<and> (c4 = 112 \<or> c4 = 80) \<and>
      (let t = (case r of [] \<Rightarrow> [] | s # r' \<Rightarrow> if s = 115 \<or> s = 83 \<or> s = 383 then r' else r)
       in take 3 t = [58, 47, 47] \<and> drop 3 t \<noteq> [] \<and> list_all url_char (drop 3 t)))"
| "url_token _ = False"

section \<open>Properties of the text normalizer\<close>

lemma split_ws_token_prefix:
  "\<forall>c \<in> set t. \<not> is_space c \<Longrightarrow> split_ws cur (t @ r) = split_ws (cur @ t) r"
  by (induction t arbitrary: cur) simp_all

lemma split_ws_ne: "t \<in> set (split_ws cur s) \<Longrightarrow> t \<noteq> []"
  by (induction cur s rule: split_ws.induct) (auto split: if_splits)

lemma split_ws_chars:
  "t \<in> set (split_ws cur s) \<Longrightarrow> c \<in> set t \<Longrightarrow> c \<in> set cur \<or> (c \<in> set s \<and> \<not> is_space c)"
proof (induction cur s rule: split_ws.induct)
  case (1 cur)
  then show ?case by (simp split: if_splits)
next
  case (2 cur d cs)
  show ?case
  proof (cases "is_space d")
    case True
    then show ?thesis using 2 by (cases "cur = []") auto
  next
    case False
    then show ?thesis using 2 by auto
  qed
qed

lemma split_tokens: "t \<in> set (split s) \<Longrightarrow> token t \<and> set t \<subseteq> set s"
  using split_ws_ne [of t "[]" s] split_ws_chars [of t "[]" s]
  by (auto simp: split_def token_def)

lemma split_join_sep:
  "sep = [32] \<Longrightarrow> \<forall>t \<in> set toks. token t \<Longrightarrow> split_ws [] (join sep toks) = toks"
proof (induction sep toks rule: join.induct)
  case (1 sep)
  then show ?case by simp
next
  case (2 sep x)
  then have "\<forall>c \<in> set x. \<not> is_space c" "x \<noteq> []" by (auto simp: token_def)
  then show ?case
    using split_ws_token_prefix [of x "[]" "[]"] by simp
next
  case (3 sep x y ys)
  then have x: "\<forall>c \<in> set x. \<not> is_space c" "x \<noteq> []" by (auto simp: token_def)
  have sp: "is_space 32" by (simp add: is_space_def)
  from 3 have IH: "split_ws [] (join [32] (y # ys)) = y # ys"
    by simp
  have "split_ws [] (x @ 32 # join [32] (y # ys)) = split_ws x (32 # join [32] (y # ys))"
    using split_ws_token_prefix [OF x(1), of "[]" "32 # join [32] (y # ys)"] by simp
  also have "\<dots> = x # split_ws [] (join [32] (y # ys))"
    using x(2) sp by simp
  finally show ?case
    using IH 3(2) by simp
qed

lemma split_join:
  "\<forall>t \<in> set toks. token t \<Longrightarrow> split (join [32] toks) = toks"
  by (simp add: split_def split_join_sep)

lemma join_set: "set (join sep toks) \<subseteq> set sep \<union> \<Union> (set ` set toks)"
  by (induction sep toks rule: join.induct) auto

lemma join_Nil_iff: "\<forall>t \<in> set toks. t \<noteq> [] \<Longrightarrow> join sep toks = [] \<longleftrightarrow> toks = []"
  by (induction sep toks rule: join.induct) auto

lemma join_hd_sep:
  "\<forall>t \<in> set toks. t \<noteq> [] \<Longrightarrow> toks \<noteq> [] \<Longrightarrow> hd (join sep toks) = hd (hd toks)"
  by (induction sep toks rule: join.induct) auto

lemma join_last_sep:
  "\<forall>t \<in> set toks. t \<noteq> [] \<Longrightarrow> toks \<noteq> [] \<Longrightarrow> last (join sep toks) = last (last toks)"
proof (induction sep toks rule: join.induct)
  case (3 sep x y ys)
  then have "join sep (y # ys) \<noteq> []"
    using join_Nil_iff [of "y # ys" sep] by simp
  with 3 show ?case by simp
qed simp_all

lemma join_hd:
  assumes "\<forall>t \<in> set toks. token t" "join [32] toks \<noteq> []"
  shows "\<not> is_space (hd (join [32] toks))"
proof -
  have ne: "\<forall>t \<in> set toks. t \<noteq> []" using assms(1) by (simp add: token_def)
  have "toks \<noteq> []" using assms(2) by auto
  then have "hd toks \<in> set toks" by simp
  then have "\<not> is_space (hd (hd toks))"
    using assms(1) by (auto simp: token_def)
  then show ?thesis
    using join_hd_sep [OF ne \<open>toks \<noteq> []\<close>] by simp
qed

lemma join_last:
  assumes "\<forall>t \<in> set toks. token t" "join [32] toks \<noteq> []"
  shows "\<not> is_space (last (join [32] toks))"
proof -
  have ne: "\<forall>t \<in> set toks. t \<noteq> []" using assms(1) by (simp add: token_def)
  have "toks \<noteq> []" using assms(2) by auto
  then have "last toks \<in> set toks" by simp
  then have "\<not> is_space (last (last toks))"
    using assms(1) by (auto simp: token_def)
  then show ?thesis
    using join_last_sep [OF ne \<open>toks \<noteq> []\<close>] by simp
qed

lemma lstrip_id: "s = [] \<or> \<not> is_space (hd s) \<Longrightarrow> lstrip s = s"
  by (cases s) (auto simp: lstrip_def)

lemma rstrip_id: "s = [] \<or> \<not> is_space (last s) \<Longrightarrow> rstrip s = s"
  by (cases s rule: rev_cases) (auto simp: rstrip_def)

lemma strip_id:
  "s = [] \<or> (\<not> is_space (hd s) \<and> \<not> is_space (last s)) \<Longrightarrow> strip s = s"
  using lstrip_id [of s] rstrip_id [of s] by (auto simp: strip_def)

lemma replace_char_id: "a \<notin> set s \<Longrightarrow> replace_char a b s = s"
  by (induction s) (auto simp: replace_char_def)

lemma remove_char_id: "a \<notin> set s \<Longrightarrow> remove_char a s = s"
  by (induction s) (auto simp: remove_char_def)

lemma set_remove_char: "set (remove_char a s) = set s - {a}"
  by (auto simp: remove_char_def)

lemma norm_space_normal_form: "normal_form (norm_space s)"
proof -
  define s2 where "s2 = remove_char PDF (remove_char RLE (remove_char LRE
      (remove_char RLM (remove_char LRM (strip (replace_char NBSP 32 s))))))"
  have nomark: "\<forall>c \<in> set s2. \<not> is_dirmark c"
    by (auto simp: s2_def set_remove_char is_dirmark_def)
  have "\<forall>t \<in> set (split s2). token t \<and> (\<forall>c \<in> set t. \<not> is_dirmark c)"
    using split_tokens [of _ s2] nomark by blast
  moreover have "norm_space s = join [32] (split s2)"
    by (simp add: norm_space_def s2_def)
  ultimately show ?thesis
    unfolding normal_form_def by blast
qed

lemma norm_space_fixes_normal_form:
  assumes "normal_form s"
  shows "norm_space s = s"
proof -
  from assms obtain toks where s: "s = join [32] toks"
    and toks: "\<forall>t \<in> set toks. token t \<and> (\<forall>c \<in> set t. \<not> is_dirmark c)"
    unfolding normal_form_def by blast
  have tok: "\<forall>t \<in> set toks. token t" using toks by blast
  have chars: "\<forall>c \<in> set s. c = 32 \<or> (\<not> is_space c \<and> \<not> is_dirmark c)"
    using join_set [of "[32]" toks] toks unfolding s token_def by fastforce
  have "NBSP \<notin> set s"
    using chars by (auto simp: NBSP_def is_space_def)
  then have r1: "replace_char NBSP 32 s = s" by (rule replace_char_id)
  have r2: "strip s = s"
    using join_hd [OF tok] join_last [OF tok] strip_id [of s] unfolding s by blast
  have m: "LRM \<notin> set s" "RLM \<notin> set s" "LRE \<notin> set s" "RLE \<notin> set s" "PDF \<notin> set s"
    using chars by (auto simp: is_dirmark_def LRM_def RLM_def LRE_def RLE_def PDF_def)
  have r3: "remove_char PDF (remove_char RLE (remove_char LRE (remove_char RLM (remove_char LRM s)))) = s"
    using m by (simp add: remove_char_id)
  have r4: "join [32] (split s) = s"
    using split_join [OF tok] by (simp add: s)
  show ?thesis
    by (simp add: norm_space_def r1 r2 r3 r4)
qed

text \<open>
  C10. The text normalizer is idempotent: normalizing an already normalized string
  (as happens to author names, normalized once at extraction and again by every consumer)
  returns it unchanged.
\<close>

theorem norm_space_idempotent: "norm_space (norm_space s) = norm_space s"
  by (rule norm_space_fixes_normal_form) (rule norm_space_normal_form)


section \<open>How the patterns match\<close>

lemma concat_map_single:
  "distinct ks \<Longrightarrow> n \<in> set ks \<Longrightarrow> (\<And>k. k \<in> set ks \<Longrightarrow> k \<noteq> n \<Longrightarrow> f k = []) \<Longrightarrow>
   concat (map f ks) = f n"
proof (induction ks)
  case Nil
  then show ?case by simp
next
  case (Cons k ks)
  show ?case
  proof (cases "k = n")
    case True
    then have "n \<notin> set ks" using Cons.prems(1) by simp
    then have "concat (map f ks) = []"
      using Cons.prems(3) by (induction ks) auto
    then show ?thesis using True by simp
  next
    case False
    then have "f k = []" using Cons.prems(3) by simp
    moreover have "concat (map f ks) = f n"
      using Cons False by auto
    ultimately show ?thesis by simp
  qed
qed

lemma rep_counts_set:
  "set (rep_counts p lo hi gr s) =
     {k. lo \<le> k \<and> k \<le> length (takeWhile p s) \<and> (case hi of None \<Rightarrow> True | Some h \<Rightarrow> k \<le> h)}"
  by (auto simp: rep_counts_def Let_def split: option.splits)

lemma rep_counts_distinct: "distinct (rep_counts p lo hi gr s)"
  by (simp add: rep_counts_def Let_def)

lemma takeWhile_run:
  "\<forall>c \<in> set ds. p c \<Longrightarrow> rest = [] \<or> \<not> p (hd rest) \<Longrightarrow> takeWhile p (ds @ rest) = ds"
  by (cases rest) (auto simp: takeWhile_append2)

lemma matches_Seq_Lit_Cons:
  "matches (Seq (Lit c) R) (d # s) g = (if d = c then matches R s g else [])"
  by simp

lemma matches_Seq_Lit_Nil: "matches (Seq (Lit c) R) [] g = []"
  by simp

lemma matches_Seq_Nil: "matches A s g = [] \<Longrightarrow> matches (Seq A R) s g = []"
  by simp

lemma matches_Grp_Nil: "matches A s g = [] \<Longrightarrow> matches (Grp n A) s g = []"
  by simp

lemma matches_Seq_single:
  "matches A s g = [(s', g')] \<Longrightarrow> matches (Seq A R) s g = matches R s' g'"
  by simp

lemma matches_Seq_Rep:
  "matches (Seq (Rep p lo hi gr) R) s g =
     concat (map (\<lambda>k. matches R (drop k s) g) (rep_counts p lo hi gr s))"
  by (simp add: comp_def)

lemma matches_Seq_Grp_Rep:
  "matches (Seq (Grp n (Rep p lo hi gr)) R) s g =
     concat (map (\<lambda>k. matches R (drop k s) (g(n \<mapsto> take k s))) (rep_counts p lo hi gr s))"
proof -
  have "k \<in> set (rep_counts p lo hi gr s) \<Longrightarrow> length s - length (drop k s) = k" for k
    using length_takeWhile_le [of p s] by (auto simp: rep_counts_set)
  then show ?thesis
    by (simp add: comp_def cong: map_cong)
qed

text \<open>A quantified class followed by a literal outside the class takes the whole run.\<close>

lemma rep_then_lit:
  assumes "\<forall>c \<in> set ds. p c" "\<not> p d" "lo \<le> length ds"
    and "case hi of None \<Rightarrow> True | Some h \<Rightarrow> length ds \<le> h"
  shows "matches (Seq (Rep p lo hi gr) (Seq (Lit d) R)) (ds @ d # rest) g = matches R rest g"
proof -
  let ?s = "ds @ d # rest"
  let ?f = "\<lambda>k. matches (Seq (Lit d) R) (drop k ?s) g"
  have tw: "takeWhile p ?s = ds"
    using assms(1,2) by (simp add: takeWhile_run)
  have mem: "length ds \<in> set (rep_counts p lo hi gr ?s)"
    using assms(3,4) by (auto simp: rep_counts_set tw split: option.splits)
  have other: "?f k = []" if "k \<in> set (rep_counts p lo hi gr ?s)" "k \<noteq> length ds" for k
  proof -
    from that have k: "k < length ds" by (auto simp: rep_counts_set tw)
    then have "drop k ?s = ds ! k # (drop (Suc k) ds @ d # rest)"
      by (simp add: Cons_nth_drop_Suc)
    moreover have "ds ! k \<noteq> d"
      using assms(1,2) k by (metis nth_mem)
    ultimately show ?thesis by simp
  qed
  have "concat (map ?f (rep_counts p lo hi gr ?s)) = ?f (length ds)"
    using rep_counts_distinct mem other by (rule concat_map_single)
  then show ?thesis
    by (simp only: matches_Seq_Rep) simp
qed

lemma grp_rep_then_lit:
  assumes "\<forall>c \<in> set ds. p c" "\<not> p d" "lo \<le> length ds"
    and "case hi of None \<Rightarrow> True | Some h \<Rightarrow> length ds \<le> h"
  shows "matches (Seq (Grp n (Rep p lo hi gr)) (Seq (Lit d) R)) (ds @ d # rest) g =
           matches R rest (g(n \<mapsto> ds))"
proof -
  let ?s = "ds @ d # rest"
  let ?f = "\<lambda>k. matches (Seq (Lit d) R) (drop k ?s) (g(n \<mapsto> take k ?s))"
  have tw: "takeWhile p ?s = ds"
    using assms(1,2) by (simp add: takeWhile_run)
  have mem: "length ds \<in> set (rep_counts p lo hi gr ?s)"
    using assms(3,4) by (auto simp: rep_counts_set tw split: option.splits)
  have other: "?f k = []" if "k \<in> set (rep_counts p lo hi gr ?s)" "k \<noteq> length ds" for k
  proof -
    from that have k: "k < length ds" by (auto simp: rep_counts_set tw)
    then have "drop k ?s = ds ! k # (drop (Suc k) ds @ d # rest)"
      by (simp add: Cons_nth_drop_Suc)
    moreover have "ds ! k \<noteq> d"
      using assms(1,2) k by (metis nth_mem)
    ultimately show ?thesis by simp
  qed
  have "concat (map ?f (rep_counts p lo hi gr ?s)) = ?f (length ds)"
    using rep_counts_distinct mem other by (rule concat_map_single)
  then show ?thesis
    by (simp only: matches_Seq_Grp_Rep) simp
qed

text \<open>A quantified class whose run has exactly the minimal length.\<close>

lemma rep_exact:
  assumes "length (takeWhile p s) = lo"
  shows "matches (Rep p lo None gr) s g = [(drop lo s, g)]"
  using assms by (simp add: rep_counts_def Let_def)

lemma rep_fixed:
  assumes "n \<le> length (takeWhile p s)"
  shows "matches (Rep p n (Some n) gr) s g = [(drop n s, g)]"
  using assms by (simp add: rep_counts_def min_def Let_def)

lemma rep_short:
  assumes "length (takeWhile p s) < lo"
  shows "matches (Rep p lo hi gr) s g = []"
  using assms by (auto simp: rep_counts_def Let_def min_def split: option.splits)

lemma digit_ascii_or_high:
  "is_digit U c \<Longrightarrow> (48 \<le> c \<and> c \<le> 57) \<or> (128 \<le> c \<and> \<not> is_space c \<and> \<not> is_mark c)"
  by (auto simp: is_digit_def digit_val_def split: if_splits option.splits)

lemma digit_not_space: "is_digit U c \<Longrightarrow> \<not> is_space c"
  using digit_ascii_or_high [of U c] by (auto simp: is_space_def)

lemma digit_not_mark: "is_digit U c \<Longrightarrow> \<not> is_mark c"
  using digit_ascii_or_high [of U c]
  by (auto simp: is_mark_def BOM_def LRM_def RLM_def LRE_def RLE_def PDF_def)

lemma digit_not_punct:
  "is_digit U c \<Longrightarrow> c \<noteq> 10 \<and> c \<noteq> 32 \<and> c \<noteq> 44 \<and> c \<noteq> 45 \<and> c \<noteq> 46 \<and> c \<noteq> 58 \<and> c \<noteq> 91 \<and> c \<noteq> 93"
  using digit_ascii_or_high [of U c] by auto

lemma not_digit_punct:
  "\<not> is_digit U 10" "\<not> is_digit U 32" "\<not> is_digit U 44" "\<not> is_digit U 45" "\<not> is_digit U 46"
  "\<not> is_digit U 58" "\<not> is_digit U 91" "\<not> is_digit U 93"
  using digit_not_punct by blast+

lemma digit_runD:
  "digit_run U lo hi s \<Longrightarrow> lo \<le> length s \<and> length s \<le> hi \<and> (\<forall>c \<in> set s. is_digit U c)"
  by (simp add: digit_run_def list_all_iff)

lemma de_date_matches:
  assumes "digit_run U 1 2 dd" "digit_run U 1 2 mm"
  shows "matches (de_date U) (dd @ 46 # mm @ 46 # s) g =
           map (\<lambda>k. (drop k s, g)) (rep_counts (is_digit U) 2 (Some 4) True s)"
proof -
  note d = digit_runD [OF assms(1)] and m = digit_runD [OF assms(2)]
  have 1: "matches (de_date U) (dd @ 46 # mm @ 46 # s) g =
      matches (Seq (digits U 1 2) (Seq (Lit 46) (digits U 2 4))) (mm @ 46 # s) g"
    unfolding de_date_def digits_def seqs.simps
    using d not_digit_punct by (intro rep_then_lit) auto
  have 2: "\<dots> = matches (digits U 2 4) s g"
    unfolding digits_def
    using m not_digit_punct by (intro rep_then_lit) auto
  show ?thesis
    unfolding 1 2 by (simp add: digits_def)
qed

lemma grp_date_then_comma:
  assumes "digit_run U 1 2 dd" "digit_run U 1 2 mm" "digit_run U 2 4 yy"
  shows "matches (Seq (Grp 1 (de_date U)) (Seq (Lit 44) R)) (dd @ 46 # mm @ 46 # yy @ 44 # rest) g =
           matches R rest (g(1 \<mapsto> dd @ 46 # mm @ 46 # yy))"
proof -
  note y = digit_runD [OF assms(3)]
  let ?s = "dd @ 46 # mm @ 46 # yy @ 44 # rest"
  let ?ks = "rep_counts (is_digit U) 2 (Some 4) True (yy @ 44 # rest)"
  let ?f = "\<lambda>k. matches (Seq (Lit 44) R) (drop k (yy @ 44 # rest))
               (g(1 \<mapsto> take (length ?s - length (drop k (yy @ 44 # rest))) ?s))"
  have tw: "takeWhile (is_digit U) (yy @ 44 # rest) = yy"
    using y not_digit_punct by (simp add: takeWhile_run)
  have mem: "length yy \<in> set ?ks"
    using y by (auto simp: rep_counts_set tw)
  have other: "?f k = []" if "k \<in> set ?ks" "k \<noteq> length yy" for k
  proof -
    from that have k: "k < length yy" by (auto simp: rep_counts_set tw)
    then have "drop k (yy @ 44 # rest) = yy ! k # (drop (Suc k) yy @ 44 # rest)"
      by (simp add: Cons_nth_drop_Suc)
    moreover have "yy ! k \<noteq> 44"
      using y k digit_not_punct by (metis nth_mem)
    ultimately show ?thesis by simp
  qed
  have "matches (Seq (Grp 1 (de_date U)) (Seq (Lit 44) R)) ?s g = concat (map ?f ?ks)"
    using de_date_matches [OF assms(1,2), of "yy @ 44 # rest" g]
    by (simp add: comp_def)
  also have "\<dots> = ?f (length yy)"
    using rep_counts_distinct mem other by (rule concat_map_single)
  also have "\<dots> = matches R rest (g(1 \<mapsto> dd @ 46 # mm @ 46 # yy))"
    by simp
  finally show ?thesis .
qed

lemma space_then:
  assumes "r = [] \<or> \<not> is_space (hd r)"
  shows "matches (Seq spaces1 R) (32 # r) g = matches R r g"
proof -
  have "takeWhile is_space (32 # r) = [32]"
    using assms by (cases r) (auto simp: is_space_def)
  then have "matches spaces1 (32 # r) g = [(r, g)]"
    unfolding spaces1_def using rep_exact [of is_space "32 # r" 1 True g] by simp
  then show ?thesis by simp
qed

lemma no_space_then:
  assumes "r = [] \<or> \<not> is_space (hd r)"
  shows "matches (Seq spaces1 R) r g = []"
proof -
  have "takeWhile is_space r = []"
    using assms by (cases r) auto
  then have "matches spaces1 r g = []"
    unfolding spaces1_def by (intro rep_short) simp
  then show ?thesis by simp
qed

lemma takeWhile_run_le:
  "\<forall>c \<in> set ds. p c \<Longrightarrow> length ds \<le> length (takeWhile p (ds @ rest))"
  by (induction ds) auto

lemma grp_time:
  assumes "digit_run U 1 2 hh" "digit_run U 2 2 mi"
  shows "matches (Seq (Grp 2 (de_time U)) R) (hh @ 58 # mi @ rest) g =
           matches R rest (g(2 \<mapsto> hh @ 58 # mi))"
proof -
  note h = digit_runD [OF assms(1)] and m = digit_runD [OF assms(2)]
  have "matches (de_time U) (hh @ 58 # mi @ rest) g = matches (digits U 2 2) (mi @ rest) g"
    unfolding de_time_def digits_def seqs.simps
    using h not_digit_punct by (intro rep_then_lit) auto
  also have "\<dots> = [(drop 2 (mi @ rest), g)]"
  proof -
    have "2 \<le> length (takeWhile (is_digit U) (mi @ rest))"
      using m takeWhile_run_le [of mi "is_digit U" rest] by simp
    then show ?thesis unfolding digits_def by (rule rep_fixed)
  qed
  also have "drop 2 (mi @ rest) = rest" using m by simp
  finally have "matches (de_time U) (hh @ 58 # mi @ rest) g = [(rest, g)]" .
  then show ?thesis by simp
qed


lemma opt_secs:
  assumes "case ss of None \<Rightarrow> True | Some s \<Rightarrow> digit_run U 2 2 s"
  shows "matches (Seq (Opt (Seq (Lit 58) (Grp 3 (digits U 2 2)))) (Seq spaces1 R))
           ((case ss of None \<Rightarrow> [] | Some s \<Rightarrow> 58 # s) @ 32 # r) g =
         matches (Seq spaces1 R) (32 # r) (case ss of None \<Rightarrow> g | Some s \<Rightarrow> g(3 \<mapsto> s))"
proof (cases ss)
  case None
  then show ?thesis by simp
next
  case (Some s)
  with assms have s: "length s = 2" "\<forall>c \<in> set s. is_digit U c"
    using digit_runD [of U 2 2 s] by auto
  have "2 \<le> length (takeWhile (is_digit U) (s @ 32 # r))"
    using s takeWhile_run_le [of s "is_digit U" "32 # r"] by simp
  then have "matches (digits U 2 2) (s @ 32 # r) g = [(drop 2 (s @ 32 # r), g)]"
    unfolding digits_def by (rule rep_fixed)
  then have inner: "matches (Seq (Lit 58) (Grp 3 (digits U 2 2))) (58 # s @ 32 # r) g =
      [(32 # r, g(3 \<mapsto> s))]"
    using s by simp
  have "\<not> is_space 58" by (simp add: is_space_def)
  then have skip: "matches (Seq spaces1 R) (58 # s @ 32 # r) g = []"
    by (intro no_space_then) simp
  show ?thesis
    using Some inner skip by simp
qed

lemma any_text_eol:
  assumes "10 \<notin> set x"
  shows "matches (Seq (Grp n any_text) Eol) x g = [([], g(n \<mapsto> x))]"
proof -
  let ?p = "\<lambda>c. c \<noteq> (10::nat)"
  let ?ks = "rep_counts ?p 0 None True x"
  let ?f = "\<lambda>k. matches Eol (drop k x) (g(n \<mapsto> take k x))"
  have tw: "takeWhile ?p x = x"
    using assms by (auto simp: takeWhile_eq_all_conv)
  have mem: "length x \<in> set ?ks"
    by (simp add: rep_counts_set tw)
  have other: "?f k = []" if "k \<in> set ?ks" "k \<noteq> length x" for k
  proof -
    from that have k: "k < length x" by (auto simp: rep_counts_set tw)
    then have d: "drop k x = x ! k # drop (Suc k) x"
      by (simp add: Cons_nth_drop_Suc)
    have "x ! k \<noteq> 10" using assms k by (metis nth_mem)
    then show ?thesis unfolding d by simp
  qed
  have "matches (Seq (Grp n any_text) Eol) x g = concat (map ?f ?ks)"
    unfolding any_text_def by (rule matches_Seq_Grp_Rep)
  also have "\<dots> = ?f (length x)"
    using rep_counts_distinct mem other by (rule concat_map_single)
  finally show ?thesis by simp
qed

lemma text_tail_first:
  assumes "10 \<notin> set w"
  shows "\<exists>more. matches (Seq spaces0 (Seq (Grp n any_text) Eol)) w g =
           ([], g(n \<mapsto> dropWhile is_space w)) # more"
proof -
  let ?X = "Seq (Grp n any_text) Eol"
  let ?m = "length (takeWhile is_space w)"
  have ks: "rep_counts is_space 0 None True w = ?m # rev [0..<?m]"
    by (simp add: rep_counts_def Let_def)
  have d: "drop ?m w = dropWhile is_space w"
    by (simp add: dropWhile_eq_drop)
  have "10 \<notin> set (dropWhile is_space w)"
    using assms set_dropWhileD by fastforce
  then have x: "matches ?X (dropWhile is_space w) g = [([], g(n \<mapsto> dropWhile is_space w))]"
    by (rule any_text_eol)
  have "matches (Seq spaces0 ?X) w g =
      concat (map (\<lambda>k. matches ?X (drop k w) g) (?m # rev [0..<?m]))"
    unfolding spaces0_def matches_Seq_Rep ks ..
  also have "\<dots> = matches ?X (dropWhile is_space w) g @
      concat (map (\<lambda>k. matches ?X (drop k w) g) (rev [0..<?m]))"
    by (simp only: list.map concat.simps d)
  finally show ?thesis
    unfolding x by simp
qed

lemma split_on_no_sep: "sep \<notin> set xs \<Longrightarrow> split_on sep cur xs = [cur @ xs]"
  by (induction xs arbitrary: cur) auto

lemma split_on_sep:
  "sep \<notin> set xs \<Longrightarrow> split_on sep cur (xs @ sep # rest) = (cur @ xs) # split_on sep [] rest"
  by (induction xs arbitrary: cur) auto

lemma int_from_digits:
  "\<forall>c \<in> set s. is_digit U c \<Longrightarrow> \<exists>n. int_from U acc s = Inr n"
  by (induction s arbitrary: acc) (auto simp: is_digit_def)

lemma py_int_digit_run:
  assumes "digit_run U lo hi s" "1 \<le> lo"
  shows "py_int U s = Inr (int_of U s)"
proof -
  from assms have "s \<noteq> []" "\<forall>c \<in> set s. is_digit U c"
    using digit_runD [OF assms(1)] by auto
  then obtain n where "py_int U s = Inr n"
    using int_from_digits [of s U 0] by (auto simp: py_int_def)
  then show ?thesis by (simp add: int_of_def)
qed

lemma pat_de_prefix:
  assumes "de_fields U dd mm yy hh mi ss" and "\<not> is_space sep"
  shows "matches (pat_de U) (de_line dd mm yy hh mi ss sep a w) g =
     matches (seqs [Lit 45, spaces1, Grp 4 author_rx, Lit 58, spaces0, Grp 5 any_text, Eol])
       (sep # 32 # a @ 58 # w)
       (case ss of None \<Rightarrow> g(1 \<mapsto> dd @ 46 # mm @ 46 # yy, 2 \<mapsto> hh @ 58 # mi)
        | Some s \<Rightarrow> g(1 \<mapsto> dd @ 46 # mm @ 46 # yy, 2 \<mapsto> hh @ 58 # mi, 3 \<mapsto> s))"
proof -
  from assms(1) have f: "digit_run U 1 2 dd" "digit_run U 1 2 mm" "digit_run U 2 4 yy"
    "digit_run U 1 2 hh" "digit_run U 2 2 mi"
    "case ss of None \<Rightarrow> True | Some s \<Rightarrow> digit_run U 2 2 s"
    by (simp_all add: de_fields_def)
  let ?sec = "case ss of None \<Rightarrow> [] | Some s \<Rightarrow> 58 # s"
  let ?T = "seqs [Lit 45, spaces1, Grp 4 author_rx, Lit 58, spaces0, Grp 5 any_text, Eol]"
  let ?g2 = "g(1 \<mapsto> dd @ 46 # mm @ 46 # yy, 2 \<mapsto> hh @ 58 # mi)"
  have line: "de_line dd mm yy hh mi ss sep a w =
      dd @ 46 # mm @ 46 # yy @ 44 # 32 # hh @ 58 # mi @ ?sec @ 32 # sep # 32 # a @ 58 # w"
    by (simp add: de_line_def)
  have hh: "hh \<noteq> []" "\<not> is_space (hd hh)"
    using digit_runD [OF f(4)] digit_not_space [of U "hd hh"] by (cases hh; auto)+
  have 1: "matches (pat_de U) (de_line dd mm yy hh mi ss sep a w) g =
      matches (seqs [spaces1, Grp 2 (de_time U), Opt (Seq (Lit 58) (Grp 3 (digits U 2 2))),
                     spaces1, ?T])
        (32 # hh @ 58 # mi @ ?sec @ 32 # sep # 32 # a @ 58 # w) (g(1 \<mapsto> dd @ 46 # mm @ 46 # yy))"
    unfolding line pat_de_def seqs.simps
    by (rule grp_date_then_comma [OF f(1,2,3)])
  also have "\<dots> = matches (seqs [Grp 2 (de_time U), Opt (Seq (Lit 58) (Grp 3 (digits U 2 2))),
                     spaces1, ?T])
        (hh @ 58 # mi @ ?sec @ 32 # sep # 32 # a @ 58 # w) (g(1 \<mapsto> dd @ 46 # mm @ 46 # yy))"
    unfolding seqs.simps using hh by (intro space_then) simp
  also have "\<dots> = matches (seqs [Opt (Seq (Lit 58) (Grp 3 (digits U 2 2))), spaces1, ?T])
        (?sec @ 32 # sep # 32 # a @ 58 # w) ?g2"
    unfolding seqs.simps by (rule grp_time [OF f(4,5)])
  also have "\<dots> = matches (seqs [spaces1, ?T]) (32 # sep # 32 # a @ 58 # w)
        (case ss of None \<Rightarrow> ?g2 | Some s \<Rightarrow> ?g2(3 \<mapsto> s))"
    unfolding seqs.simps by (rule opt_secs [OF f(6)])
  also have "\<dots> = matches ?T (sep # 32 # a @ 58 # w)
        (case ss of None \<Rightarrow> ?g2 | Some s \<Rightarrow> ?g2(3 \<mapsto> s))"
    unfolding seqs.simps using assms(2) by (intro space_then) simp
  finally show ?thesis .
qed

lemma pat_de_other_separator:
  assumes "de_fields U dd mm yy hh mi ss" and "\<not> is_space sep" and "sep \<noteq> 45"
  shows "re_match (pat_de U) (de_line dd mm yy hh mi ss sep a w) = None"
  unfolding re_match_def pat_de_prefix [OF assms(1,2)]
  using assms(3) by simp

lemma pat_de_hyphen:
  assumes "de_fields U dd mm yy hh mi ss"
    and "a \<noteq> []" "58 \<notin> set a" "\<not> is_space (hd a)" "10 \<notin> set w"
  shows "\<exists>r. re_match (pat_de U) (de_line dd mm yy hh mi ss 45 a w) = Some (r,
     (case ss of None \<Rightarrow> Map.empty(1 \<mapsto> dd @ 46 # mm @ 46 # yy, 2 \<mapsto> hh @ 58 # mi)
       | Some s \<Rightarrow> Map.empty(1 \<mapsto> dd @ 46 # mm @ 46 # yy, 2 \<mapsto> hh @ 58 # mi, 3 \<mapsto> s))
     (4 \<mapsto> a, 5 \<mapsto> dropWhile is_space w))"
proof -
  let ?g3 = "case ss of None \<Rightarrow> Map.empty(1 \<mapsto> dd @ 46 # mm @ 46 # yy, 2 \<mapsto> hh @ 58 # mi)
       | Some s \<Rightarrow> Map.empty(1 \<mapsto> dd @ 46 # mm @ 46 # yy, 2 \<mapsto> hh @ 58 # mi, 3 \<mapsto> s)"
  let ?T = "seqs [spaces0, Grp 5 any_text, Eol]"
  have sp: "\<not> is_space 45" by (simp add: is_space_def)
  have "matches (pat_de U) (de_line dd mm yy hh mi ss 45 a w) Map.empty =
      matches (seqs [spaces1, Grp 4 author_rx, Lit 58, ?T]) (32 # a @ 58 # w) ?g3"
    unfolding pat_de_prefix [OF assms(1) sp] by simp
  also have "\<dots> = matches (seqs [Grp 4 author_rx, Lit 58, ?T]) (a @ 58 # w) ?g3"
    unfolding seqs.simps using assms(2,4) by (intro space_then) simp
  also have "\<dots> = matches ?T w (?g3(4 \<mapsto> a))"
    unfolding seqs.simps author_rx_def
    using assms(2,3) by (intro grp_rep_then_lit) (auto simp: Suc_le_eq)
  finally have "matches (pat_de U) (de_line dd mm yy hh mi ss 45 a w) Map.empty =
      matches ?T w (?g3(4 \<mapsto> a))" .
  moreover obtain more where "matches ?T w (?g3(4 \<mapsto> a)) =
      ([], ?g3(4 \<mapsto> a, 5 \<mapsto> dropWhile is_space w)) # more"
    using text_tail_first [OF assms(5), of 5 "?g3(4 \<mapsto> a)"] by auto
  ultimately show ?thesis
    by (simp add: re_match_def)
qed

lemma pat_iso_de_line:
  assumes "de_fields U dd mm yy hh mi ss"
  shows "re_match (pat_iso U) (de_line dd mm yy hh mi ss sep a w) = None"
proof -
  from assms have d: "digit_run U 1 2 dd" by (simp add: de_fields_def)
  let ?s = "de_line dd mm yy hh mi ss sep a w"
  have "takeWhile (is_digit U) ?s = dd"
    unfolding de_line_def
    using digit_runD [OF d] not_digit_punct by (intro takeWhile_run) auto
  then have "length (takeWhile (is_digit U) ?s) < 4"
    using digit_runD [OF d] by simp
  then have "matches (digits U 4 4) ?s Map.empty = []"
    unfolding digits_def by (rule rep_short)
  then have "matches (pat_iso U) ?s Map.empty = []"
    by (simp add: pat_iso_def iso_date_def)
  then show ?thesis by (simp add: re_match_def)
qed

lemma pat_bracket_de_line:
  assumes "de_fields U dd mm yy hh mi ss"
  shows "re_match (pat_bracket U) (de_line dd mm yy hh mi ss sep a w) = None"
proof -
  from assms have d: "digit_run U 1 2 dd" by (simp add: de_fields_def)
  then obtain c cs where dd: "dd = c # cs" "is_digit U c"
    using digit_runD [OF d] by (cases dd) auto
  then have "c \<noteq> 91" using digit_not_punct by blast
  then have "matches (pat_bracket U) (de_line dd mm yy hh mi ss sep a w) Map.empty = []"
    by (simp add: pat_bracket_def de_line_def dd)
  then show ?thesis by (simp add: re_match_def)
qed

lemma parse_dt_de_fields:
  assumes "de_fields U dd mm yy hh mi ss"
  shows "parse_dt_de U (dd @ 46 # mm @ 46 # yy) (hh @ 58 # mi) ss =
     mk_datetime (if int_of U yy < 100 then int_of U yy + 2000 else int_of U yy)
       (int_of U mm) (int_of U dd) (int_of U hh) (int_of U mi)
       (case ss of None \<Rightarrow> 0 | Some s \<Rightarrow> int_of U s)"
proof -
  from assms have f: "digit_run U 1 2 dd" "digit_run U 1 2 mm" "digit_run U 2 4 yy"
    "digit_run U 1 2 hh" "digit_run U 2 2 mi"
    "case ss of None \<Rightarrow> True | Some s \<Rightarrow> digit_run U 2 2 s"
    by (simp_all add: de_fields_def)
  have n46: "46 \<notin> set dd" "46 \<notin> set mm" "46 \<notin> set yy"
    using digit_runD [OF f(1)] digit_runD [OF f(2)] digit_runD [OF f(3)] digit_not_punct
    by blast+
  have n58: "58 \<notin> set hh" "58 \<notin> set mi"
    using digit_runD [OF f(4)] digit_runD [OF f(5)] digit_not_punct by blast+
  have d: "split_sep 46 (dd @ 46 # mm @ 46 # yy) = [dd, mm, yy]"
    using n46 by (simp add: split_sep_def split_on_sep split_on_no_sep)
  have t: "split_sep 58 (hh @ 58 # mi) = [hh, mi]"
    using n58 by (simp add: split_sep_def split_on_sep split_on_no_sep)
  have i: "py_int U dd = Inr (int_of U dd)" "py_int U mm = Inr (int_of U mm)"
    "py_int U yy = Inr (int_of U yy)" "py_int U hh = Inr (int_of U hh)"
    "py_int U mi = Inr (int_of U mi)"
    using f by (auto intro: py_int_digit_run)
  have s: "(case ss of None \<Rightarrow> Inr 0 | Some x \<Rightarrow> py_int U x) =
      Inr (case ss of None \<Rightarrow> 0 | Some s \<Rightarrow> int_of U s)"
    using f(6) by (cases ss) (auto intro: py_int_digit_run)
  show ?thesis
    unfolding parse_dt_de_def d t by (simp add: i s Let_def)
qed

lemma match_header_de_line:
  assumes "de_fields U dd mm yy hh mi ss"
    and "a \<noteq> []" "58 \<notin> set a" "\<not> is_space (hd a)" "10 \<notin> set w"
  shows "match_header U (de_line dd mm yy hh mi ss 45 a w) =
     (case mk_datetime (if int_of U yy < 100 then int_of U yy + 2000 else int_of U yy)
             (int_of U mm) (int_of U dd) (int_of U hh) (int_of U mi)
             (case ss of None \<Rightarrow> 0 | Some s \<Rightarrow> int_of U s) of
        Inl e \<Rightarrow> Inl e
      | Inr t \<Rightarrow> Inr (Some \<lparr>ts = t, author = norm_space a, mtext = dropWhile is_space w\<rparr>))"
proof -
  obtain r where m: "re_match (pat_de U) (de_line dd mm yy hh mi ss 45 a w) = Some (r,
     (case ss of None \<Rightarrow> Map.empty(1 \<mapsto> dd @ 46 # mm @ 46 # yy, 2 \<mapsto> hh @ 58 # mi)
       | Some s \<Rightarrow> Map.empty(1 \<mapsto> dd @ 46 # mm @ 46 # yy, 2 \<mapsto> hh @ 58 # mi, 3 \<mapsto> s))
     (4 \<mapsto> a, 5 \<mapsto> dropWhile is_space w))"
    using pat_de_hyphen [OF assms] by blast
  let ?G = "((case ss of None \<Rightarrow> Map.empty(1 \<mapsto> dd @ 46 # mm @ 46 # yy, 2 \<mapsto> hh @ 58 # mi)
       | Some s \<Rightarrow> Map.empty(1 \<mapsto> dd @ 46 # mm @ 46 # yy, 2 \<mapsto> hh @ 58 # mi, 3 \<mapsto> s))
     (4 \<mapsto> a, 5 \<mapsto> dropWhile is_space w)) :: groups"
  have g: "?G 1 = Some (dd @ 46 # mm @ 46 # yy)" "?G 2 = Some (hh @ 58 # mi)" "?G 3 = ss"
    "?G 4 = Some a" "?G 5 = Some (dropWhile is_space w)"
    by (simp_all split: option.split)
  have "header_de U ?G =
     (case parse_dt_de U (dd @ 46 # mm @ 46 # yy) (hh @ 58 # mi) ss of
        Inl e \<Rightarrow> Inl e
      | Inr t \<Rightarrow> Inr \<lparr>ts = t, author = norm_space a, mtext = dropWhile is_space w\<rparr>)"
    unfolding header_de_def g by simp
  then show ?thesis
    unfolding match_header_def pat_iso_de_line [OF assms(1)] m parse_dt_de_fields [OF assms(1)]
    by (simp split: sum.splits)
qed

lemma match_header_de_line_other_separator:
  assumes "de_fields U dd mm yy hh mi ss" and "\<not> is_space sep" and "sep \<noteq> 45"
  shows "match_header U (de_line dd mm yy hh mi ss sep a w) = Inr None"
  unfolding match_header_def pat_iso_de_line [OF assms(1)] pat_bracket_de_line [OF assms(1)]
    pat_de_other_separator [OF assms]
  by simp

lemma strip_marks_filter: "strip_marks s = filter (\<lambda>c. \<not> is_mark c) s"
  by (induction s) (auto simp: strip_marks_def remove_char_def is_mark_def)

lemma strip_marks_append: "strip_marks (xs @ ys) = strip_marks xs @ strip_marks ys"
  by (simp add: strip_marks_filter)

lemma strip_marks_Cons:
  "strip_marks (c # cs) = (if is_mark c then strip_marks cs else c # strip_marks cs)"
  by (simp add: strip_marks_filter)

lemma strip_marks_Nil: "strip_marks [] = []"
  by (simp add: strip_marks_filter)

lemma strip_marks_id: "\<forall>c \<in> set s. \<not> is_mark c \<Longrightarrow> strip_marks s = s"
  by (simp add: strip_marks_filter)

lemma strip_marks_idem: "strip_marks (strip_marks s) = strip_marks s"
  by (simp add: strip_marks_filter)

lemma strip_marks_digit_run: "digit_run U lo hi s \<Longrightarrow> strip_marks s = s"
  using digit_runD [of U lo hi s] digit_not_mark by (intro strip_marks_id) blast

lemma rstrip_chars_keep:
  assumes "c \<notin> set cs"
  shows "rstrip_chars cs (xs @ c # w) = xs @ c # rstrip_chars cs w"
proof (cases "\<forall>x \<in> set (rev w). x \<in> set cs")
  case True
  then have "dropWhile (\<lambda>x. x \<in> set cs) (rev w) = []" by simp
  moreover have "dropWhile (\<lambda>x. x \<in> set cs) (rev w @ c # rev xs) = c # rev xs"
    using True assms by (simp add: dropWhile_append)
  ultimately show ?thesis by (simp add: rstrip_chars_def)
next
  case False
  then have "dropWhile (\<lambda>x. x \<in> set cs) (rev w @ c # rev xs) =
      dropWhile (\<lambda>x. x \<in> set cs) (rev w) @ c # rev xs"
    by (auto simp: dropWhile_append)
  then show ?thesis by (simp add: rstrip_chars_def)
qed

lemma rstrip_chars_id: "w = [] \<or> last w \<notin> set cs \<Longrightarrow> rstrip_chars cs w = w"
  by (cases w rule: rev_cases) (auto simp: rstrip_chars_def)

lemma not_mark_punct:
  "\<not> is_mark 10" "\<not> is_mark 32" "\<not> is_mark 44" "\<not> is_mark 45" "\<not> is_mark 46" "\<not> is_mark 58"
  "\<not> is_mark 8211"
  by (simp_all add: is_mark_def BOM_def LRM_def RLM_def LRE_def RLE_def PDF_def)

lemma clean_line_de_line:
  assumes "de_fields U dd mm yy hh mi ss" and "\<not> is_mark sep"
  shows "clean_line (de_line dd mm yy hh mi ss sep a w) =
           de_line dd mm yy hh mi ss sep (strip_marks a) (strip_marks (rstrip_chars [10] w))"
proof -
  from assms(1) have f: "digit_run U 1 2 dd" "digit_run U 1 2 mm" "digit_run U 2 4 yy"
    "digit_run U 1 2 hh" "digit_run U 2 2 mi"
    "case ss of None \<Rightarrow> True | Some s \<Rightarrow> digit_run U 2 2 s"
    by (simp_all add: de_fields_def)
  let ?sec = "case ss of None \<Rightarrow> [] | Some s \<Rightarrow> 58 # s"
  let ?P = "dd @ 46 # mm @ 46 # yy @ 44 # 32 # hh @ 58 # mi @ ?sec @ 32 # sep # 32 # a"
  have line: "de_line dd mm yy hh mi ss sep a w = ?P @ 58 # w"
    by (simp add: de_line_def)
  have r: "rstrip_chars [10] (?P @ 58 # w) = ?P @ 58 # rstrip_chars [10] w"
    by (rule rstrip_chars_keep) simp
  have sec: "strip_marks ?sec = ?sec"
    using f(6) by (cases ss) (auto simp: strip_marks_Cons strip_marks_Nil not_mark_punct strip_marks_digit_run)
  have "strip_marks (?P @ 58 # rstrip_chars [10] w) =
      dd @ 46 # mm @ 46 # yy @ 44 # 32 # hh @ 58 # mi @ ?sec @ 32 # sep # 32 # strip_marks a @
      58 # strip_marks (rstrip_chars [10] w)"
    using f(1-5) assms(2)
    by (simp add: strip_marks_append strip_marks_Cons not_mark_punct strip_marks_digit_run sec)
  then show ?thesis
    unfolding clean_line_def line r Let_def by (simp add: de_line_def)
qed

lemma de_line_not_Nil: "de_line dd mm yy hh mi ss sep a w \<noteq> []"
  by (simp add: de_line_def)

section \<open>The lines of a text\<close>

lemma splitlines_single:
  "\<forall>c \<in> set s. \<not> is_linebreak c \<Longrightarrow> s \<noteq> [] \<Longrightarrow> splitlines_from cur s = [cur @ s]"
proof (induction cur s rule: splitlines_from.induct)
  case (1 cur)
  then show ?case by simp
next
  case (2 cur c)
  then show ?case by simp
next
  case (3 cur c d cs)
  have c: "\<not> is_linebreak c" using "3.prems" by simp
  have "is_linebreak 13" by (simp add: is_linebreak_def)
  with c have "c \<noteq> 13" by auto
  with 3 c show ?case by simp
qed

lemma not_linebreak_13: "\<not> is_linebreak c \<Longrightarrow> c \<noteq> 13 \<and> c \<noteq> 10"
  by (auto simp: is_linebreak_def)

lemma is_linebreak_10: "is_linebreak 10"
  by (simp add: is_linebreak_def)

lemma splitlines_line:
  "\<forall>c \<in> set l. \<not> is_linebreak c \<Longrightarrow>
   splitlines_from cur (l @ 10 # rest) = (cur @ l) # splitlines_from [] rest"
proof (induction l arbitrary: cur)
  case Nil
  then show ?case
    by (cases rest) (simp_all add: is_linebreak_10)
next
  case (Cons c l)
  then have c: "\<not> is_linebreak c" "c \<noteq> 13" using not_linebreak_13 by auto
  obtain d ds where "l @ 10 # rest = d # ds" by (cases l) auto
  then have "splitlines_from cur (c # l @ 10 # rest) = splitlines_from (cur @ [c]) (l @ 10 # rest)"
    using c by simp
  then show ?case using Cons by simp
qed

lemma splitlines_unlines:
  "\<forall>l \<in> set ls. \<forall>c \<in> set l. \<not> is_linebreak c \<Longrightarrow>
   splitlines (concat (map (\<lambda>l. l @ [10]) ls)) = ls"
  unfolding splitlines_def
  by (induction ls) (simp_all add: splitlines_line)

lemma parse_messages_lines:
  "splitlines t = ls \<Longrightarrow> parse_messages U t = parse_lines U ls"
  by (simp add: parse_messages_def)








section \<open>Evaluation on concrete lines\<close>

lemmas rx_defs = pat_iso_def pat_de_def pat_bracket_def iso_date_def iso_time_def de_date_def
  de_time_def digits_def spaces1_def spaces0_def any_text_def author_rx_def rep_counts_def
  is_digit_def digit_val_def ascii_unidata_def is_space_def is_mark_def re_match_def Let_def
  BOM_def LRM_def RLM_def LRE_def RLE_def PDF_def NBSP_def

lemmas hdr_defs = match_header_def header_iso_def header_de_def fromisoformat_def
  parse_dt_de_def py_int_def mk_datetime_def valid_datetime_def days_in_month_def is_leap_def
  split_sep_def norm_space_def strip_def lstrip_def rstrip_def replace_char_def
  remove_char_def split_def

lemmas line_defs = clean_line_def rstrip_chars_def strip_marks_def

lemma ascii_simps:
  "ascii [] = []" "ascii (c # cs) = of_char c # ascii cs"
  by (simp_all add: ascii_def)

lemma header_alice:
  "match_header ascii_unidata (ascii ''2024-01-05 09:00:00 Alice: Hello'') =
   Inr (Some \<lparr>ts = \<lparr>year = 2024, month = 1, day = 5, hour = 9, minute = 0, second = 0\<rparr>,
              author = ascii ''Alice'', mtext = ascii ''Hello''\<rparr>)"
  by (simp add: ascii_def rx_defs hdr_defs)

lemma header_bob:
  "match_header ascii_unidata (ascii ''2024-01-05 09:00:05 Bob: Hi!'') =
   Inr (Some \<lparr>ts = \<lparr>year = 2024, month = 1, day = 5, hour = 9, minute = 0, second = 5\<rparr>,
              author = ascii ''Bob'', mtext = ascii ''Hi!''\<rparr>)"
  by (simp add: ascii_def rx_defs hdr_defs)

lemma no_header_continuation:
  "match_header ascii_unidata (ascii ''continuation of Bob's line'') = Inr None"
  by (simp add: ascii_def rx_defs hdr_defs)

lemma no_header_hello: "match_header ascii_unidata (ascii ''hello'') = Inr None"
  by (simp add: ascii_def rx_defs hdr_defs)

lemma no_header_world: "match_header ascii_unidata (ascii ''world'') = Inr None"
  by (simp add: ascii_def rx_defs hdr_defs)

lemma clean_line_ascii_examples:
  "clean_line (ascii ''2024-01-05 09:00:00 Alice: Hello'') = ascii ''2024-01-05 09:00:00 Alice: Hello''"
  "clean_line (ascii ''2024-01-05 09:00:05 Bob: Hi!'') = ascii ''2024-01-05 09:00:05 Bob: Hi!''"
  "clean_line (ascii ''continuation of Bob's line'') = ascii ''continuation of Bob's line''"
  "clean_line (ascii ''hello'') = ascii ''hello''"
  "clean_line (ascii ''world'') = ascii ''world''"
  "clean_line [] = []"
  by (simp_all add: ascii_def line_defs remove_char_def BOM_def LRM_def RLM_def LRE_def RLE_def PDF_def)

section \<open>The loop of the message stream builder\<close>

lemma run_append:
  "run U st (xs @ ys) = (case run U st xs of Inl e \<Rightarrow> Inl e | Inr st' \<Rightarrow> run U st' ys)"
  by (induction xs arbitrary: st) (auto split: sum.splits)

lemma append_text_Nil: "append_text [] st = st"
  by (cases st) (auto simp: append_text_def split: option.splits)

lemma append_text_append: "append_text y (append_text x st) = append_text (x @ y) st"
  by (cases st) (auto simp: append_text_def split: option.splits)

lemma step_non_header:
  "non_header U raw \<Longrightarrow> step U st raw = Inr (append_text (10 # clean_line raw) st)"
  by (auto simp: non_header_def step_def Let_def)

lemma step_header:
  "is_header U raw m \<Longrightarrow> step U st raw = Inr (open_msg m st)"
  by (auto simp: is_header_def step_def Let_def)

lemma run_non_headers:
  "\<forall>l \<in> set ls. non_header U l \<Longrightarrow>
   run U st ls = Inr (append_text (concat (map (\<lambda>l. 10 # clean_line l) ls)) st)"
proof (induction ls arbitrary: st)
  case Nil
  then show ?case by (simp add: append_text_Nil)
next
  case (Cons l ls)
  then show ?case
    by (simp add: step_non_header append_text_append)
qed

lemma append_text_closed: "append_text x ([], None) = ([], None)"
  by (simp add: append_text_def)

lemma splitlines_bob:
  "splitlines (ascii ''2024-01-05 09:00:05 Bob: Hi!'' @ 10 # ascii ''continuation of Bob's line'' @
      13 # 10 # 10 # ascii ''hello'' @ [8232]) =
   [ascii ''2024-01-05 09:00:05 Bob: Hi!'', ascii ''continuation of Bob's line'', [], ascii ''hello'']"
  by (simp add: splitlines_def ascii_simps is_linebreak_def)

text \<open>
  C1. Continuation absorption: for an input text that consists of one header line
  followed by lines that are no headers (blank ones among them), \<open>parse_messages\<close>
  returns a single message. Its text is the text of the header followed by every further
  line in the order of the input, each after a line break; a blank line adds the line
  break alone. The lines are those into which \<open>splitlines\<close> cuts the text, taken as the
  loop sees them (after \<open>clean_line\<close>); the second part says the same of the text that is
  written by ending each of the given lines with a line feed.
\<close>

theorem continuation_absorption:
  assumes "is_header U h m" and "\<forall>l \<in> set ls. non_header U l"
  shows "(splitlines t = h # ls \<longrightarrow>
            parse_messages U t =
              Inr [m\<lparr>mtext := mtext m @ concat (map (\<lambda>l. 10 # clean_line l) ls)\<rparr>]) \<and>
         ((\<forall>l \<in> set (h # ls). \<forall>c \<in> set l. \<not> is_linebreak c) \<longrightarrow>
            parse_messages U (concat (map (\<lambda>l. l @ [10]) (h # ls))) =
              Inr [m\<lparr>mtext := mtext m @ concat (map (\<lambda>l. 10 # clean_line l) ls)\<rparr>])"
proof -
  have p: "parse_lines U (h # ls) =
      Inr [m\<lparr>mtext := mtext m @ concat (map (\<lambda>l. 10 # clean_line l) ls)\<rparr>]"
    using assms
    by (simp add: parse_lines_def step_header run_non_headers open_msg_def all_msgs_def
        append_text_def)
  have "splitlines (concat (map (\<lambda>l. l @ [10]) (h # ls))) = h # ls"
    if "\<forall>l \<in> set (h # ls). \<forall>c \<in> set l. \<not> is_linebreak c"
    using that by (rule splitlines_unlines)
  then show ?thesis
    using p by (auto simp: parse_messages_def)
qed

theorem continuation_absorption_witness:
  "is_header ascii_unidata (ascii ''2024-01-05 09:00:05 Bob: Hi!'')
     \<lparr>ts = \<lparr>year = 2024, month = 1, day = 5, hour = 9, minute = 0, second = 5\<rparr>,
      author = ascii ''Bob'', mtext = ascii ''Hi!''\<rparr> \<and>
   non_header ascii_unidata (ascii ''continuation of Bob's line'') \<and>
   non_header ascii_unidata [] \<and> non_header ascii_unidata (ascii ''hello'') \<and>
   parse_messages ascii_unidata
     (ascii ''2024-01-05 09:00:05 Bob: Hi!'' @ 10 # ascii ''continuation of Bob's line'' @
      13 # 10 # 10 # ascii ''hello'' @ [8232]) =
   Inr [\<lparr>ts = \<lparr>year = 2024, month = 1, day = 5, hour = 9, minute = 0, second = 5\<rparr>,
         author = ascii ''Bob'',
         mtext = ascii ''Hi!'' @ [10] @ ascii ''continuation of Bob's line'' @ [10] @ [10] @ ascii ''hello''\<rparr>]"
proof -
  let ?m = "\<lparr>ts = \<lparr>year = 2024, month = 1, day = 5, hour = 9, minute = 0, second = 5\<rparr>,
      author = ascii ''Bob'', mtext = ascii ''Hi!''\<rparr>"
  have "ascii ''2024-01-05 09:00:05 Bob: Hi!'' \<noteq> []"
    by (simp add: ascii_def)
  then have h: "is_header ascii_unidata (ascii ''2024-01-05 09:00:05 Bob: Hi!'') ?m"
    by (simp add: is_header_def clean_line_ascii_examples header_bob)
  have n: "\<forall>l \<in> set [ascii ''continuation of Bob's line'', [], ascii ''hello'']. non_header ascii_unidata l"
    by (simp add: non_header_def clean_line_ascii_examples no_header_continuation no_header_hello)
  have "parse_messages ascii_unidata
     (ascii ''2024-01-05 09:00:05 Bob: Hi!'' @ 10 # ascii ''continuation of Bob's line'' @
      13 # 10 # 10 # ascii ''hello'' @ [8232]) =
     Inr [?m\<lparr>mtext := mtext ?m @ concat (map (\<lambda>l. 10 # clean_line l)
       [ascii ''continuation of Bob's line'', [], ascii ''hello''])\<rparr>]"
    using continuation_absorption [OF h n] splitlines_bob by blast
  then show ?thesis
    using h n by (simp add: clean_line_ascii_examples)
qed

text \<open>
  C9. Lines before the first header that are no headers are dropped: they add nothing to
  any message, and the result is that of the input without them. Two such lines followed
  by one header line give exactly one message.
\<close>

theorem orphans_dropped:
  assumes "\<forall>l \<in> set orphans. non_header U l"
  shows "parse_lines U (orphans @ rest) = parse_lines U rest"
  using assms
  by (simp add: parse_lines_def run_append run_non_headers append_text_closed)

theorem orphans_dropped_witness:
  "non_header ascii_unidata (ascii ''hello'') \<and> non_header ascii_unidata (ascii ''world'') \<and>
   parse_lines ascii_unidata
     ([ascii ''hello'', ascii ''world''] @ [ascii ''2024-01-05 09:00:00 Alice: Hello'']) =
   Inr [\<lparr>ts = \<lparr>year = 2024, month = 1, day = 5, hour = 9, minute = 0, second = 0\<rparr>,
         author = ascii ''Alice'', mtext = ascii ''Hello''\<rparr>]"
proof -
  have n: "\<forall>l \<in> set [ascii ''hello'', ascii ''world'']. non_header ascii_unidata l"
    by (simp add: non_header_def clean_line_ascii_examples no_header_hello no_header_world)
  have "ascii ''2024-01-05 09:00:00 Alice: Hello'' \<noteq> []"
    by (simp add: ascii_def)
  then have p: "parse_lines ascii_unidata [ascii ''2024-01-05 09:00:00 Alice: Hello''] =
      Inr [\<lparr>ts = \<lparr>year = 2024, month = 1, day = 5, hour = 9, minute = 0, second = 0\<rparr>,
         author = ascii ''Alice'', mtext = ascii ''Hello''\<rparr>]"
    by (simp add: parse_lines_def step_def clean_line_ascii_examples header_alice
        open_msg_def all_msgs_def)
  show ?thesis
    using n orphans_dropped [OF n, of "[ascii ''2024-01-05 09:00:00 Alice: Hello'']"] p
    by simp
qed

section \<open>The second dialect\<close>



lemma header_alice_de:
  "match_header ascii_unidata (ascii ''05.01.24, 9:00 - Alice: Hey'') =
   Inr (Some \<lparr>ts = \<lparr>year = 2024, month = 1, day = 5, hour = 9, minute = 0, second = 0\<rparr>,
              author = ascii ''Alice'', mtext = ascii ''Hey''\<rparr>)"
  by (simp add: ascii_simps rx_defs hdr_defs)

lemma pat_de_hyphen_example:
  "re_match (pat_de ascii_unidata) (ascii ''05.01.24, 9:00 - Alice: Hey'') \<noteq> None"
  by (simp add: ascii_simps rx_defs)

lemma pat_de_en_dash_example:
  "re_match (pat_de ascii_unidata) (ascii ''05.01.24, 9:00 '' @ 8211 # ascii '' Alice: Hey'') = None"
  by (simp add: ascii_simps rx_defs)

text \<open>
  C6, as the claim states it, fails: \<open>_pat_de\<close> matches the line
  \<open>05.01.24, 9:00 - Alice: Hey\<close> and does not match the same line with an en dash
  (U+2013) in the place of the hyphen.
\<close>

theorem en_dash_counterexample:
  "re_match (pat_de ascii_unidata) (ascii ''05.01.24, 9:00 - Alice: Hey'') \<noteq> None \<and>
   re_match (pat_de ascii_unidata) (ascii ''05.01.24, 9:00 '' @ 8211 # ascii '' Alice: Hey'') = None"
  using pat_de_hyphen_example pat_de_en_dash_example by simp

text \<open>
  C6, amended. In the second dialect the separator between the time and the author is
  the ASCII hyphen only: \<open>_pat_de\<close> matches a line of the form
  \<open>DD.MM.YY, H:MM[:SS] - author: text\<close>, and it matches no line of the form
  \<open>DD.MM.YY, H:MM[:SS] EN-DASH author: text\<close>, whatever the author and the text are.
\<close>

theorem dialect2_separator_is_hyphen:
  assumes "de_fields U dd mm yy hh mi ss"
  shows "re_match (pat_de U) (de_line dd mm yy hh mi ss 8211 a w) = None \<and>
         (a \<noteq> [] \<and> 58 \<notin> set a \<and> \<not> is_space (hd a) \<and> 10 \<notin> set w \<longrightarrow>
            re_match (pat_de U) (de_line dd mm yy hh mi ss 45 a w) \<noteq> None)"
proof -
  have sep: "\<not> is_space 8211" "8211 \<noteq> (45::nat)"
    by (simp_all add: is_space_def)
  have "re_match (pat_de U) (de_line dd mm yy hh mi ss 8211 a w) = None"
    using sep by (intro pat_de_other_separator [OF assms]) simp_all
  moreover have "re_match (pat_de U) (de_line dd mm yy hh mi ss 45 a w) \<noteq> None"
    if "a \<noteq> []" "58 \<notin> set a" "\<not> is_space (hd a)" "10 \<notin> set w"
    using pat_de_hyphen [OF assms that] by auto
  ultimately show ?thesis by blast
qed

theorem dialect2_separator_is_hyphen_witness:
  "de_fields ascii_unidata (ascii ''05'') (ascii ''01'') (ascii ''24'') (ascii ''9'') (ascii ''00'') None \<and>
   de_line (ascii ''05'') (ascii ''01'') (ascii ''24'') (ascii ''9'') (ascii ''00'') None 8211
     (ascii ''Alice'') (ascii '' Hey'') = ascii ''05.01.24, 9:00 '' @ 8211 # ascii '' Alice: Hey'' \<and>
   de_line (ascii ''05'') (ascii ''01'') (ascii ''24'') (ascii ''9'') (ascii ''00'') None 45
     (ascii ''Alice'') (ascii '' Hey'') = ascii ''05.01.24, 9:00 - Alice: Hey'' \<and>
   re_match (pat_de ascii_unidata) (ascii ''05.01.24, 9:00 '' @ 8211 # ascii '' Alice: Hey'') = None \<and>
   re_match (pat_de ascii_unidata) (ascii ''05.01.24, 9:00 - Alice: Hey'') \<noteq> None"
proof -
  have f: "de_fields ascii_unidata (ascii ''05'') (ascii ''01'') (ascii ''24'') (ascii ''9'') (ascii ''00'') None"
    by (simp add: de_fields_def digit_run_def is_digit_def digit_val_def ascii_simps)
  have l: "de_line (ascii ''05'') (ascii ''01'') (ascii ''24'') (ascii ''9'') (ascii ''00'') None 8211
     (ascii ''Alice'') (ascii '' Hey'') = ascii ''05.01.24, 9:00 '' @ 8211 # ascii '' Alice: Hey''"
    "de_line (ascii ''05'') (ascii ''01'') (ascii ''24'') (ascii ''9'') (ascii ''00'') None 45
     (ascii ''Alice'') (ascii '' Hey'') = ascii ''05.01.24, 9:00 - Alice: Hey''"
    by (simp_all add: de_line_def ascii_simps)
  have a: "ascii ''Alice'' \<noteq> [] \<and> 58 \<notin> set (ascii ''Alice'') \<and> \<not> is_space (hd (ascii ''Alice'')) \<and>
      10 \<notin> set (ascii '' Hey'')"
    by (simp add: ascii_simps is_space_def)
  show ?thesis
    using f l a dialect2_separator_is_hyphen [OF f, of "ascii ''Alice''" "ascii '' Hey''"]
    by simp
qed

section \<open>Time stamps outside the calendar\<close>

lemma step_raises: "step U st raw = Inl ValueError \<longleftrightarrow> raises U raw"
  by (auto simp: step_def raises_def Let_def split: sum.splits option.splits)

lemma error_is_ValueError: "(e::error) = ValueError"
  by (cases e) simp

lemma run_raises: "run U st ls = Inl ValueError \<longleftrightarrow> (\<exists>l \<in> set ls. raises U l)"
proof (induction ls arbitrary: st)
  case Nil
  then show ?case by simp
next
  case (Cons l ls)
  show ?case
  proof (cases "step U st l")
    case (Inl e)
    then have "raises U l"
      using step_raises [of U st l] error_is_ValueError [of e] by simp
    then show ?thesis using Inl error_is_ValueError [of e] by simp
  next
    case (Inr st')
    then have "\<not> raises U l"
      using step_raises [of U st l] by simp
    then show ?thesis using Inr Cons.IH [of st'] by simp
  qed
qed

lemma parse_lines_raises:
  "parse_lines U ls = Inl ValueError \<longleftrightarrow> (\<exists>l \<in> set ls. raises U l)"
  using run_raises [of U "([], None)" ls]
  by (cases "run U ([], None) ls") (simp_all add: parse_lines_def)

lemma raises_month_13:
  "match_header ascii_unidata (ascii ''05.13.24, 9:00 - Alice: Hey'') = Inl ValueError"
  by (simp add: ascii_simps rx_defs hdr_defs)

lemma raises_hour_99:
  "match_header ascii_unidata (ascii ''2024-01-05 99:00:00 Alice: Hello'') = Inl ValueError"
  by (simp add: ascii_simps rx_defs hdr_defs)

lemma clean_line_raising:
  "clean_line (ascii ''05.13.24, 9:00 - Alice: Hey'') = ascii ''05.13.24, 9:00 - Alice: Hey''"
  "clean_line (ascii ''2024-01-05 99:00:00 Alice: Hello'') = ascii ''2024-01-05 99:00:00 Alice: Hello''"
  by (simp_all add: ascii_simps line_defs remove_char_def BOM_def LRM_def RLM_def LRE_def RLE_def PDF_def)

lemma splitlines_raising:
  "splitlines (ascii ''05.13.24, 9:00 - Alice: Hey'') = [ascii ''05.13.24, 9:00 - Alice: Hey'']"
  "splitlines (ascii ''2024-01-05 99:00:00 Alice: Hello'') = [ascii ''2024-01-05 99:00:00 Alice: Hello'']"
  unfolding splitlines_def
  by (subst splitlines_single; simp add: ascii_simps is_linebreak_def)+

text \<open>
  C4, as the claim states it, fails: a line with the shape of a header and month 13, or
  hour 99, is not passed over as a line that matches nothing. The conversion of its time
  stamp raises \<open>ValueError\<close>, and \<open>parse_messages\<close> ends with that error.
\<close>

theorem invalid_calendar_value_counterexample:
  "parse_messages ascii_unidata (ascii ''05.13.24, 9:00 - Alice: Hey'') = Inl ValueError \<and>
   parse_messages ascii_unidata (ascii ''2024-01-05 99:00:00 Alice: Hello'') = Inl ValueError"
proof -
  have ne: "ascii ''05.13.24, 9:00 - Alice: Hey'' \<noteq> []" "ascii ''2024-01-05 99:00:00 Alice: Hello'' \<noteq> []"
    by (simp_all add: ascii_simps)
  show ?thesis
    unfolding parse_messages_def splitlines_raising
    using ne by (simp add: parse_lines_def step_def clean_line_raising raises_month_13 raises_hour_99)
qed

lemma three_fixed_runs:
  assumes "digit_run U n1 n1 x1" "digit_run U n2 n2 x2" "digit_run U n3 n3 x3" "\<not> is_digit U c"
  shows "matches (seqs [digits U n1 n1, Lit c, digits U n2 n2, Lit c, digits U n3 n3])
           (x1 @ c # x2 @ c # x3 @ rest) g = [(rest, g)]"
proof -
  note a = digit_runD [OF assms(1)] and b = digit_runD [OF assms(2)] and d = digit_runD [OF assms(3)]
  have 1: "matches (seqs [digits U n1 n1, Lit c, digits U n2 n2, Lit c, digits U n3 n3])
      (x1 @ c # x2 @ c # x3 @ rest) g =
      matches (Seq (digits U n2 n2) (Seq (Lit c) (digits U n3 n3))) (x2 @ c # x3 @ rest) g"
    unfolding digits_def seqs.simps
    using a assms(4) by (intro rep_then_lit) auto
  have 2: "\<dots> = matches (digits U n3 n3) (x3 @ rest) g"
    unfolding digits_def
    using b assms(4) by (intro rep_then_lit) auto
  have "n3 \<le> length (takeWhile (is_digit U) (x3 @ rest))"
    using d takeWhile_run_le [of x3 "is_digit U" rest] by simp
  then have 3: "matches (digits U n3 n3) (x3 @ rest) g = [(drop n3 (x3 @ rest), g)]"
    unfolding digits_def by (rule rep_fixed)
  show ?thesis
    unfolding 1 2 3 using d by simp
qed

lemma grp_single:
  "matches r s g = [(rest, g)] \<Longrightarrow>
   matches (Seq (Grp n r) R) s g = matches R rest (g(n \<mapsto> take (length s - length rest) s))"
  by simp

lemma pat_iso_line:
  assumes "iso_fields U y mo d h mi s" and "sp = 32 \<or> sp = 84"
    and "a \<noteq> []" "58 \<notin> set a" "\<not> is_space (hd a)" "10 \<notin> set w"
  shows "\<exists>r. re_match (pat_iso U) (iso_line y mo d sp h mi s a w) = Some (r,
     Map.empty(1 \<mapsto> y @ 45 # mo @ 45 # d, 2 \<mapsto> h @ 58 # mi @ 58 # s, 3 \<mapsto> a,
               4 \<mapsto> dropWhile is_space w))"
proof -
  from assms(1) have f: "digit_run U 4 4 y" "digit_run U 2 2 mo" "digit_run U 2 2 d"
    "digit_run U 2 2 h" "digit_run U 2 2 mi" "digit_run U 2 2 s"
    by (simp_all add: iso_fields_def)
  let ?date = "y @ 45 # mo @ 45 # d" and ?time = "h @ 58 # mi @ 58 # s"
  let ?T = "seqs [spaces0, Grp 4 any_text, Eol]"
  let ?r1 = "sp # ?time @ 32 # a @ 58 # w"
  let ?r2 = "32 # a @ 58 # w"
  have line: "iso_line y mo d sp h mi s a w = ?date @ ?r1"
    by (simp add: iso_line_def)
  have d: "matches (iso_date U) (?date @ ?r1) g = [(?r1, g)]" for g
    unfolding iso_date_def
    using three_fixed_runs [OF f(1,2,3) not_digit_punct(4), of ?r1 g] by simp
  have t: "matches (iso_time U) (?time @ ?r2) g = [(?r2, g)]" for g
    unfolding iso_time_def
    using three_fixed_runs [OF f(4,5,6) not_digit_punct(6), of ?r2 g] by simp
  have ld: "length (?date @ ?r1) - length ?r1 = length ?date"
    and lt: "length (?time @ ?r2) - length ?r2 = length ?time"
    by simp_all
  have "matches (pat_iso U) (iso_line y mo d sp h mi s a w) Map.empty =
      matches (seqs [Cls (\<lambda>c. c = 32 \<or> c = 84), Grp 2 (iso_time U), spaces1, Grp 3 author_rx,
                     Lit 58, ?T]) ?r1 (Map.empty(1 \<mapsto> ?date))"
    unfolding line pat_iso_def seqs.simps grp_single [OF d] ld by simp
  also have "\<dots> = matches (seqs [Grp 2 (iso_time U), spaces1, Grp 3 author_rx, Lit 58, ?T])
      (?time @ ?r2) (Map.empty(1 \<mapsto> ?date))"
    using assms(2) by auto
  also have "\<dots> = matches (seqs [spaces1, Grp 3 author_rx, Lit 58, ?T]) ?r2
      (Map.empty(1 \<mapsto> ?date, 2 \<mapsto> ?time))"
    unfolding seqs.simps grp_single [OF t] lt by simp
  also have "\<dots> = matches (seqs [Grp 3 author_rx, Lit 58, ?T]) (a @ 58 # w)
      (Map.empty(1 \<mapsto> ?date, 2 \<mapsto> ?time))"
    unfolding seqs.simps using assms(3,5) by (intro space_then) simp
  also have "\<dots> = matches ?T w (Map.empty(1 \<mapsto> ?date, 2 \<mapsto> ?time, 3 \<mapsto> a))"
    unfolding seqs.simps author_rx_def
    using assms(3,4) by (intro grp_rep_then_lit) (auto simp: Suc_le_eq)
  finally have "matches (pat_iso U) (iso_line y mo d sp h mi s a w) Map.empty =
      matches ?T w (Map.empty(1 \<mapsto> ?date, 2 \<mapsto> ?time, 3 \<mapsto> a))" .
  moreover obtain more where "matches ?T w (Map.empty(1 \<mapsto> ?date, 2 \<mapsto> ?time, 3 \<mapsto> a)) =
      ([], Map.empty(1 \<mapsto> ?date, 2 \<mapsto> ?time, 3 \<mapsto> a, 4 \<mapsto> dropWhile is_space w)) # more"
    using text_tail_first [OF assms(6), of 4 "Map.empty(1 \<mapsto> ?date, 2 \<mapsto> ?time, 3 \<mapsto> a)"]
    by auto
  ultimately show ?thesis
    by (simp add: re_match_def)
qed

lemma int_from_ascii:
  "int_from ascii_unidata acc s = Inr n \<Longrightarrow> int_from U acc s = Inr n"
proof (induction s arbitrary: acc)
  case Nil
  then show ?case by simp
next
  case (Cons c s)
  from Cons.prems obtain v where v: "digit_val ascii_unidata c = Some v"
    by (auto split: option.splits)
  then have "digit_val U c = Some v"
    by (auto simp: digit_val_def ascii_unidata_def split: if_splits)
  then show ?case
    using Cons v by simp
qed

lemma py_int_ascii: "py_int ascii_unidata s = Inr n \<Longrightarrow> int_of U s = n"
  using int_from_ascii [of 0 s n U]
  by (auto simp: py_int_def int_of_def split: if_splits)

lemma fromisoformat_invalid:
  assumes "iso_fields U y mo d h mi s"
    and "\<not> valid_datetime (int_of U y) (int_of U mo) (int_of U d) (int_of U h) (int_of U mi) (int_of U s)"
  shows "fromisoformat ((y @ 45 # mo @ 45 # d) @ [32] @ (h @ 58 # mi @ 58 # s)) = Inl ValueError"
proof -
  from assms(1) have len: "length y = 4" "length mo = 2" "length d = 2" "length h = 2"
    "length mi = 2" "length s = 2"
    by (auto simp: iso_fields_def digit_run_def)
  let ?x = "(y @ 45 # mo @ 45 # d) @ [32] @ (h @ 58 # mi @ 58 # s)"
  have parts: "take 4 ?x = y" "take 2 (drop 5 ?x) = mo" "take 2 (drop 8 ?x) = d"
    "take 2 (drop 11 ?x) = h" "take 2 (drop 14 ?x) = mi" "take 2 (drop 17 ?x) = s"
    using len by simp_all
  show ?thesis
  proof (cases "\<exists>a b c e f g. py_int ascii_unidata y = Inr a \<and> py_int ascii_unidata mo = Inr b \<and>
      py_int ascii_unidata d = Inr c \<and> py_int ascii_unidata h = Inr e \<and>
      py_int ascii_unidata mi = Inr f \<and> py_int ascii_unidata s = Inr g")
    case True
    then obtain a b c e f g where p: "py_int ascii_unidata y = Inr a" "py_int ascii_unidata mo = Inr b"
      "py_int ascii_unidata d = Inr c" "py_int ascii_unidata h = Inr e"
      "py_int ascii_unidata mi = Inr f" "py_int ascii_unidata s = Inr g"
      by blast
    have "\<not> valid_datetime a b c e f g"
      using assms(2) p [THEN py_int_ascii, of U] by simp
    then show ?thesis
      unfolding fromisoformat_def parts by (simp add: p mk_datetime_def)
  next
    case False
    then show ?thesis
      unfolding fromisoformat_def parts
      by (auto simp: error_is_ValueError split: sum.splits)
  qed
qed

lemma match_header_iso_line_invalid:
  assumes "iso_fields U y mo d h mi s" and "sp = 32 \<or> sp = 84"
    and "a \<noteq> []" "58 \<notin> set a" "\<not> is_space (hd a)" "10 \<notin> set w"
    and "\<not> valid_datetime (int_of U y) (int_of U mo) (int_of U d) (int_of U h) (int_of U mi) (int_of U s)"
  shows "match_header U (iso_line y mo d sp h mi s a w) = Inl ValueError"
proof -
  obtain r where m: "re_match (pat_iso U) (iso_line y mo d sp h mi s a w) = Some (r,
     Map.empty(1 \<mapsto> y @ 45 # mo @ 45 # d, 2 \<mapsto> h @ 58 # mi @ 58 # s, 3 \<mapsto> a,
               4 \<mapsto> dropWhile is_space w))"
    using pat_iso_line [OF assms(1-6)] by blast
  show ?thesis
    unfolding match_header_def m
    using fromisoformat_invalid [OF assms(1,7)]
    by (simp add: header_iso_def)
qed

lemma opt_secs_bracket:
  assumes "case ss of None \<Rightarrow> True | Some s \<Rightarrow> digit_run U 2 2 s"
  shows "matches (Seq (Opt (Seq (Lit 58) (Grp 3 (digits U 2 2)))) (Seq (Lit 93) R))
           ((case ss of None \<Rightarrow> [] | Some s \<Rightarrow> 58 # s) @ 93 # r) g =
         matches R r (case ss of None \<Rightarrow> g | Some s \<Rightarrow> g(3 \<mapsto> s))"
proof (cases ss)
  case None
  then show ?thesis by simp
next
  case (Some s)
  with assms have s: "length s = 2" "\<forall>c \<in> set s. is_digit U c"
    using digit_runD [of U 2 2 s] by auto
  have "2 \<le> length (takeWhile (is_digit U) (s @ 93 # r))"
    using s takeWhile_run_le [of s "is_digit U" "93 # r"] by simp
  then have "matches (digits U 2 2) (s @ 93 # r) g = [(drop 2 (s @ 93 # r), g)]"
    unfolding digits_def by (rule rep_fixed)
  then have inner: "matches (Seq (Lit 58) (Grp 3 (digits U 2 2))) (58 # s @ 93 # r) g =
      [(93 # r, g(3 \<mapsto> s))]"
    using s by simp
  show ?thesis
    using Some inner by simp
qed

lemma pat_bracket_line:
  assumes "de_fields U dd mm yy hh mi ss"
    and "a \<noteq> []" "58 \<notin> set a" "\<not> is_space (hd a)" "10 \<notin> set w"
  shows "\<exists>r. re_match (pat_bracket U) (bracket_line dd mm yy hh mi ss a w) = Some (r,
     (case ss of None \<Rightarrow> Map.empty(1 \<mapsto> dd @ 46 # mm @ 46 # yy, 2 \<mapsto> hh @ 58 # mi)
       | Some s \<Rightarrow> Map.empty(1 \<mapsto> dd @ 46 # mm @ 46 # yy, 2 \<mapsto> hh @ 58 # mi, 3 \<mapsto> s))
     (4 \<mapsto> a, 5 \<mapsto> dropWhile is_space w))"
proof -
  from assms(1) have f: "digit_run U 1 2 dd" "digit_run U 1 2 mm" "digit_run U 2 4 yy"
    "digit_run U 1 2 hh" "digit_run U 2 2 mi"
    "case ss of None \<Rightarrow> True | Some s \<Rightarrow> digit_run U 2 2 s"
    by (simp_all add: de_fields_def)
  let ?sec = "case ss of None \<Rightarrow> [] | Some s \<Rightarrow> 58 # s"
  let ?T = "seqs [spaces0, Grp 5 any_text, Eol]"
  let ?A = "seqs [spaces1, Grp 4 author_rx, Lit 58, ?T]"
  let ?g1 = "(Map.empty :: groups)(1 \<mapsto> dd @ 46 # mm @ 46 # yy)"
  let ?g2 = "?g1(2 \<mapsto> hh @ 58 # mi)"
  let ?g3 = "case ss of None \<Rightarrow> ?g2 | Some s \<Rightarrow> ?g2(3 \<mapsto> s)"
  have line: "bracket_line dd mm yy hh mi ss a w =
      91 # dd @ 46 # mm @ 46 # yy @ 44 # 32 # hh @ 58 # mi @ ?sec @ 93 # 32 # a @ 58 # w"
    by (simp add: bracket_line_def)
  have hh: "hh \<noteq> []" "\<not> is_space (hd hh)"
    using digit_runD [OF f(4)] digit_not_space [of U "hd hh"] by (cases hh; auto)+
  have "matches (pat_bracket U) (bracket_line dd mm yy hh mi ss a w) Map.empty =
      matches (seqs [Grp 1 (de_date U), Lit 44, spaces1, Grp 2 (de_time U),
                     Opt (Seq (Lit 58) (Grp 3 (digits U 2 2))), Lit 93, ?A])
        (dd @ 46 # mm @ 46 # yy @ 44 # 32 # hh @ 58 # mi @ ?sec @ 93 # 32 # a @ 58 # w) Map.empty"
    unfolding line pat_bracket_def by simp
  also have "\<dots> = matches (seqs [spaces1, Grp 2 (de_time U),
                     Opt (Seq (Lit 58) (Grp 3 (digits U 2 2))), Lit 93, ?A])
        (32 # hh @ 58 # mi @ ?sec @ 93 # 32 # a @ 58 # w) ?g1"
    unfolding seqs.simps by (rule grp_date_then_comma [OF f(1,2,3)])
  also have "\<dots> = matches (seqs [Grp 2 (de_time U),
                     Opt (Seq (Lit 58) (Grp 3 (digits U 2 2))), Lit 93, ?A])
        (hh @ 58 # mi @ ?sec @ 93 # 32 # a @ 58 # w) ?g1"
    unfolding seqs.simps using hh by (intro space_then) simp
  also have "\<dots> = matches (seqs [Opt (Seq (Lit 58) (Grp 3 (digits U 2 2))), Lit 93, ?A])
        (?sec @ 93 # 32 # a @ 58 # w) ?g2"
    unfolding seqs.simps by (rule grp_time [OF f(4,5)])
  also have "\<dots> = matches ?A (32 # a @ 58 # w) ?g3"
    unfolding seqs.simps by (rule opt_secs_bracket [OF f(6)])
  also have "\<dots> = matches (seqs [Grp 4 author_rx, Lit 58, ?T]) (a @ 58 # w) ?g3"
    unfolding seqs.simps using assms(2,4) by (intro space_then) simp
  also have "\<dots> = matches ?T w (?g3(4 \<mapsto> a))"
    unfolding seqs.simps author_rx_def
    using assms(2,3) by (intro grp_rep_then_lit) (auto simp: Suc_le_eq)
  finally have "matches (pat_bracket U) (bracket_line dd mm yy hh mi ss a w) Map.empty =
      matches ?T w (?g3(4 \<mapsto> a))" .
  moreover obtain more where "matches ?T w (?g3(4 \<mapsto> a)) =
      ([], ?g3(4 \<mapsto> a, 5 \<mapsto> dropWhile is_space w)) # more"
    using text_tail_first [OF assms(5), of 5 "?g3(4 \<mapsto> a)"] by auto
  ultimately show ?thesis
    by (simp add: re_match_def)
qed

lemma other_patterns_bracket_line:
  "re_match (pat_iso U) (bracket_line dd mm yy hh mi ss a w) = None"
  "re_match (pat_de U) (bracket_line dd mm yy hh mi ss a w) = None"
proof -
  let ?s = "bracket_line dd mm yy hh mi ss a w"
  have tw: "length (takeWhile (is_digit U) ?s) < 1"
    using not_digit_punct(7) [of U] by (simp add: bracket_line_def)
  then have "matches (digits U 4 4) ?s Map.empty = []"
    unfolding digits_def by (intro rep_short) simp
  then have "matches (pat_iso U) ?s Map.empty = []"
    by (simp add: pat_iso_def iso_date_def)
  then show "re_match (pat_iso U) ?s = None" by (simp add: re_match_def)
  have "matches (digits U 1 2) ?s Map.empty = []"
    unfolding digits_def using tw by (rule rep_short)
  then have "matches (pat_de U) ?s Map.empty = []"
    by (simp add: pat_de_def de_date_def)
  then show "re_match (pat_de U) ?s = None" by (simp add: re_match_def)
qed

lemma match_header_bracket_line:
  assumes "de_fields U dd mm yy hh mi ss"
    and "a \<noteq> []" "58 \<notin> set a" "\<not> is_space (hd a)" "10 \<notin> set w"
  shows "match_header U (bracket_line dd mm yy hh mi ss a w) =
     (case mk_datetime (if int_of U yy < 100 then int_of U yy + 2000 else int_of U yy)
             (int_of U mm) (int_of U dd) (int_of U hh) (int_of U mi)
             (case ss of None \<Rightarrow> 0 | Some s \<Rightarrow> int_of U s) of
        Inl e \<Rightarrow> Inl e
      | Inr t \<Rightarrow> Inr (Some \<lparr>ts = t, author = norm_space a, mtext = dropWhile is_space w\<rparr>))"
proof -
  obtain r where m: "re_match (pat_bracket U) (bracket_line dd mm yy hh mi ss a w) = Some (r,
     (case ss of None \<Rightarrow> Map.empty(1 \<mapsto> dd @ 46 # mm @ 46 # yy, 2 \<mapsto> hh @ 58 # mi)
       | Some s \<Rightarrow> Map.empty(1 \<mapsto> dd @ 46 # mm @ 46 # yy, 2 \<mapsto> hh @ 58 # mi, 3 \<mapsto> s))
     (4 \<mapsto> a, 5 \<mapsto> dropWhile is_space w))"
    using pat_bracket_line [OF assms] by blast
  let ?G = "((case ss of None \<Rightarrow> Map.empty(1 \<mapsto> dd @ 46 # mm @ 46 # yy, 2 \<mapsto> hh @ 58 # mi)
       | Some s \<Rightarrow> Map.empty(1 \<mapsto> dd @ 46 # mm @ 46 # yy, 2 \<mapsto> hh @ 58 # mi, 3 \<mapsto> s))
     (4 \<mapsto> a, 5 \<mapsto> dropWhile is_space w)) :: groups"
  have g: "?G 1 = Some (dd @ 46 # mm @ 46 # yy)" "?G 2 = Some (hh @ 58 # mi)" "?G 3 = ss"
    "?G 4 = Some a" "?G 5 = Some (dropWhile is_space w)"
    by (simp_all split: option.split)
  have "header_de U ?G =
     (case parse_dt_de U (dd @ 46 # mm @ 46 # yy) (hh @ 58 # mi) ss of
        Inl e \<Rightarrow> Inl e
      | Inr t \<Rightarrow> Inr \<lparr>ts = t, author = norm_space a, mtext = dropWhile is_space w\<rparr>)"
    unfolding header_de_def g by simp
  then show ?thesis
    unfolding match_header_def other_patterns_bracket_line m parse_dt_de_fields [OF assms(1)]
    by (simp split: sum.splits)
qed

lemma splitlines_from_no_linebreak:
  "l \<in> set (splitlines_from cur s) \<Longrightarrow> c \<in> set l \<Longrightarrow> c \<in> set cur \<or> \<not> is_linebreak c"
proof (induction cur s rule: splitlines_from.induct)
  case (1 cur)
  then show ?case by (simp split: if_splits)
next
  case (2 cur d)
  then show ?case by (cases "is_linebreak d") auto
next
  case (3 cur d e cs)
  show ?case
  proof (cases "d = 13 \<and> e = 10")
    case True
    then show ?thesis using 3 by auto
  next
    case False
    show ?thesis
    proof (cases "is_linebreak d")
      case True
      then show ?thesis using 3 False by auto
    next
      case lb: False
      then show ?thesis using 3 False by auto
    qed
  qed
qed

lemma splitlines_no_lf: "l \<in> set (splitlines t) \<Longrightarrow> 10 \<notin> set l"
  using splitlines_from_no_linebreak [of l "[]" t 10] is_linebreak_10
  by (auto simp: splitlines_def)

lemma clean_line_colon:
  assumes "10 \<notin> set w"
  shows "clean_line (p @ 58 # w) = strip_marks p @ 58 # strip_marks w"
proof -
  have "rstrip_chars [10] w = w"
    using assms by (intro rstrip_chars_id) (cases w rule: rev_cases; simp)
  then have "rstrip_chars [10] (p @ 58 # w) = p @ 58 # w"
    using rstrip_chars_keep [of 58 "[10]" p w] by simp
  then show ?thesis
    by (simp add: clean_line_def strip_marks_append strip_marks_Cons not_mark_punct)
qed

lemma clean_line_iso_line:
  assumes "iso_fields U y mo d h mi s" and "sp = 32 \<or> sp = 84" and "10 \<notin> set w"
  shows "clean_line (iso_line y mo d sp h mi s a w) =
           iso_line y mo d sp h mi s (strip_marks a) (strip_marks w)"
proof -
  from assms(1) have f: "digit_run U 4 4 y" "digit_run U 2 2 mo" "digit_run U 2 2 d"
    "digit_run U 2 2 h" "digit_run U 2 2 mi" "digit_run U 2 2 s"
    by (simp_all add: iso_fields_def)
  have sp: "\<not> is_mark sp"
    using assms(2) by (auto simp: is_mark_def BOM_def LRM_def RLM_def LRE_def RLE_def PDF_def)
  let ?p = "y @ 45 # mo @ 45 # d @ sp # h @ 58 # mi @ 58 # s @ 32 # a"
  have "iso_line y mo d sp h mi s a w = ?p @ 58 # w"
    by (simp add: iso_line_def)
  moreover have "strip_marks ?p = y @ 45 # mo @ 45 # d @ sp # h @ 58 # mi @ 58 # s @ 32 # strip_marks a"
    using f sp
    by (simp add: strip_marks_append strip_marks_Cons not_mark_punct strip_marks_digit_run)
  ultimately show ?thesis
    using clean_line_colon [OF assms(3), of ?p] by (simp add: iso_line_def)
qed

lemma clean_line_bracket_line:
  assumes "de_fields U dd mm yy hh mi ss" and "10 \<notin> set w"
  shows "clean_line (bracket_line dd mm yy hh mi ss a w) =
           bracket_line dd mm yy hh mi ss (strip_marks a) (strip_marks w)"
proof -
  from assms(1) have f: "digit_run U 1 2 dd" "digit_run U 1 2 mm" "digit_run U 2 4 yy"
    "digit_run U 1 2 hh" "digit_run U 2 2 mi"
    "case ss of None \<Rightarrow> True | Some s \<Rightarrow> digit_run U 2 2 s"
    by (simp_all add: de_fields_def)
  let ?sec = "case ss of None \<Rightarrow> [] | Some s \<Rightarrow> 58 # s"
  let ?p = "91 # dd @ 46 # mm @ 46 # yy @ 44 # 32 # hh @ 58 # mi @ ?sec @ 93 # 32 # a"
  have m: "\<not> is_mark 91" "\<not> is_mark 93"
    by (simp_all add: is_mark_def BOM_def LRM_def RLM_def LRE_def RLE_def PDF_def)
  have sec: "strip_marks ?sec = ?sec"
    using f(6) by (cases ss) (auto simp: strip_marks_Cons strip_marks_Nil not_mark_punct strip_marks_digit_run)
  have "bracket_line dd mm yy hh mi ss a w = ?p @ 58 # w"
    by (simp add: bracket_line_def)
  moreover have "strip_marks ?p =
      91 # dd @ 46 # mm @ 46 # yy @ 44 # 32 # hh @ 58 # mi @ ?sec @ 93 # 32 # strip_marks a"
    using f(1-5) m
    by (simp add: strip_marks_append strip_marks_Cons not_mark_punct strip_marks_digit_run sec)
  ultimately show ?thesis
    using clean_line_colon [OF assms(2), of ?p] by (simp add: bracket_line_def)
qed

lemma raises_parse_messages:
  "l \<in> set (splitlines t) \<Longrightarrow> raises U l \<Longrightarrow> parse_messages U t = Inl ValueError"
  using parse_lines_raises [of U "splitlines t"] by (auto simp: parse_messages_def)

text \<open>
  C4, amended. A line whose shape matches a header dialect while its date or time is no
  value of the calendar is not passed over as a line that matches nothing: the conversion
  of its time stamp raises \<open>ValueError\<close>, nothing catches it, and \<open>parse_messages\<close> ends
  with that error for every input text that holds such a line, in any of the three
  dialects and at any place of the text.
\<close>

theorem invalid_calendar_value_raises:
  assumes "l \<in> set (splitlines t)"
    and "strip_marks a \<noteq> []" and "58 \<notin> set a" and "\<not> is_space (hd (strip_marks a))"
  shows "(iso_fields U y mo d h mi s \<and> (sp = 32 \<or> sp = 84) \<and>
          l = iso_line y mo d sp h mi s a w \<and>
          \<not> valid_datetime (int_of U y) (int_of U mo) (int_of U d)
               (int_of U h) (int_of U mi) (int_of U s)
          \<longrightarrow> parse_messages U t = Inl ValueError) \<and>
         (de_fields U dd mm yy hh mn ss \<and>
          (l = de_line dd mm yy hh mn ss 45 a w \<or> l = bracket_line dd mm yy hh mn ss a w) \<and>
          \<not> valid_datetime (if int_of U yy < 100 then int_of U yy + 2000 else int_of U yy)
               (int_of U mm) (int_of U dd) (int_of U hh) (int_of U mn)
               (case ss of None \<Rightarrow> 0 | Some x \<Rightarrow> int_of U x)
          \<longrightarrow> parse_messages U t = Inl ValueError)"
proof (intro conjI impI)
  have a: "58 \<notin> set (strip_marks a)"
    using assms(3) by (simp add: strip_marks_filter)
  have lf: "10 \<notin> set l"
    using assms(1) by (rule splitlines_no_lf)
  {
    assume h: "iso_fields U y mo d h mi s \<and> (sp = 32 \<or> sp = 84) \<and>
          l = iso_line y mo d sp h mi s a w \<and>
          \<not> valid_datetime (int_of U y) (int_of U mo) (int_of U d)
               (int_of U h) (int_of U mi) (int_of U s)"
    then have f: "iso_fields U y mo d h mi s" and sp: "sp = 32 \<or> sp = 84" by simp_all
    have w: "10 \<notin> set w" "10 \<notin> set (strip_marks w)"
      using lf h by (auto simp: iso_line_def strip_marks_filter)
    have m: "match_header U (iso_line y mo d sp h mi s (strip_marks a) (strip_marks w)) = Inl ValueError"
      using match_header_iso_line_invalid [OF f sp assms(2) a assms(4) w(2)] h by simp
    have c: "clean_line l = iso_line y mo d sp h mi s (strip_marks a) (strip_marks w)"
      using h clean_line_iso_line [OF f sp w(1), of a] by simp
    have "iso_line y mo d sp h mi s (strip_marks a) (strip_marks w) \<noteq> []"
      by (simp add: iso_line_def)
    then have "raises U l"
      by (simp add: raises_def c m)
    then show "parse_messages U t = Inl ValueError"
      using assms(1) raises_parse_messages by blast
  }
  {
    assume h: "de_fields U dd mm yy hh mn ss \<and>
          (l = de_line dd mm yy hh mn ss 45 a w \<or> l = bracket_line dd mm yy hh mn ss a w) \<and>
          \<not> valid_datetime (if int_of U yy < 100 then int_of U yy + 2000 else int_of U yy)
               (int_of U mm) (int_of U dd) (int_of U hh) (int_of U mn)
               (case ss of None \<Rightarrow> 0 | Some x \<Rightarrow> int_of U x)"
    then have f: "de_fields U dd mm yy hh mn ss" by simp
    have w: "10 \<notin> set w" "10 \<notin> set (strip_marks w)"
      using lf h by (auto simp: de_line_def bracket_line_def strip_marks_filter)
    have rw: "rstrip_chars [10] w = w"
      using w(1) by (intro rstrip_chars_id) (cases w rule: rev_cases; simp)
    have "raises U l"
    proof (cases "l = de_line dd mm yy hh mn ss 45 a w")
      case True
      have m: "match_header U (de_line dd mm yy hh mn ss 45 (strip_marks a) (strip_marks w)) = Inl ValueError"
        using match_header_de_line [OF f assms(2) a assms(4) w(2)] h
        by (simp add: mk_datetime_def)
      have c: "clean_line l = de_line dd mm yy hh mn ss 45 (strip_marks a) (strip_marks w)"
        using True clean_line_de_line [OF f not_mark_punct(4), of a w] rw by simp
      show ?thesis
        by (simp add: raises_def c m de_line_not_Nil)
    next
      case False
      then have l: "l = bracket_line dd mm yy hh mn ss a w" using h by blast
      have m: "match_header U (bracket_line dd mm yy hh mn ss (strip_marks a) (strip_marks w)) = Inl ValueError"
        using match_header_bracket_line [OF f assms(2) a assms(4) w(2)] h
        by (simp add: mk_datetime_def)
      have c: "clean_line l = bracket_line dd mm yy hh mn ss (strip_marks a) (strip_marks w)"
        using l clean_line_bracket_line [OF f w(1), of a] by simp
      have "bracket_line dd mm yy hh mn ss (strip_marks a) (strip_marks w) \<noteq> []"
        by (simp add: bracket_line_def)
      then show ?thesis
        by (simp add: raises_def c m)
    qed
    then show "parse_messages U t = Inl ValueError"
      using assms(1) raises_parse_messages by blast
  }
qed

theorem invalid_calendar_value_raises_witness:
  "parse_messages ascii_unidata
     (ascii ''hello'' @ 10 # ascii ''05.13.24, 9:00 - Alice: Hey'' @ 10 #
      ascii ''2024-01-05 09:00:00 Alice: Hello'') = Inl ValueError \<and>
   parse_messages ascii_unidata (ascii ''2024-01-05 99:00:00 Alice: Hello'') = Inl ValueError \<and>
   parse_messages ascii_unidata (ascii ''[05.13.2024, 9:00:07] Alice: Hey'') = Inl ValueError"
proof -
  have a: "strip_marks (ascii ''Alice'') \<noteq> []" "58 \<notin> set (ascii ''Alice'')"
    "\<not> is_space (hd (strip_marks (ascii ''Alice'')))"
    by (simp_all add: strip_marks_Cons strip_marks_Nil is_mark_def BOM_def LRM_def RLM_def LRE_def
        RLE_def PDF_def ascii_simps is_space_def)
  have i: "int_of ascii_unidata (ascii ''05'') = 5" "int_of ascii_unidata (ascii ''13'') = 13"
    "int_of ascii_unidata (ascii ''24'') = 24" "int_of ascii_unidata (ascii ''9'') = 9"
    "int_of ascii_unidata (ascii ''00'') = 0" "int_of ascii_unidata (ascii ''2024'') = 2024"
    "int_of ascii_unidata (ascii ''01'') = 1" "int_of ascii_unidata (ascii ''99'') = 99"
    "int_of ascii_unidata (ascii ''07'') = 7"
    by (simp_all add: int_of_def py_int_def digit_val_def ascii_simps)
  have s1: "ascii ''05.13.24, 9:00 - Alice: Hey'' \<in> set (splitlines
      (ascii ''hello'' @ 10 # ascii ''05.13.24, 9:00 - Alice: Hey'' @ 10 #
       ascii ''2024-01-05 09:00:00 Alice: Hello''))"
    by (simp add: splitlines_def ascii_simps is_linebreak_def)
  have f1: "de_fields ascii_unidata (ascii ''05'') (ascii ''13'') (ascii ''24'') (ascii ''9'') (ascii ''00'') None"
    by (simp add: de_fields_def digit_run_def is_digit_def digit_val_def ascii_simps)
  have l1: "ascii ''05.13.24, 9:00 - Alice: Hey'' =
      de_line (ascii ''05'') (ascii ''13'') (ascii ''24'') (ascii ''9'') (ascii ''00'') None 45
        (ascii ''Alice'') (ascii '' Hey'')"
    by (simp add: de_line_def ascii_simps)
  have v1: "\<not> valid_datetime 2024 13 5 9 0 0" "\<not> valid_datetime 2024 13 5 9 0 7"
    "\<not> valid_datetime 2024 1 5 99 0 0"
    by (simp_all add: valid_datetime_def)
  have 1: "parse_messages ascii_unidata
     (ascii ''hello'' @ 10 # ascii ''05.13.24, 9:00 - Alice: Hey'' @ 10 #
      ascii ''2024-01-05 09:00:00 Alice: Hello'') = Inl ValueError"
    using invalid_calendar_value_raises [where U = ascii_unidata and dd = "ascii ''05''" and mm = "ascii ''13''" and yy = "ascii ''24''"
          and hh = "ascii ''9''" and mn = "ascii ''00''" and ss = None and w = "ascii '' Hey''",
        OF s1 a, THEN conjunct2, THEN mp]
      f1 l1 v1
    by (simp add: i)
  have s2: "ascii ''2024-01-05 99:00:00 Alice: Hello'' \<in>
      set (splitlines (ascii ''2024-01-05 99:00:00 Alice: Hello''))"
    by (simp add: splitlines_raising)
  have f2: "iso_fields ascii_unidata (ascii ''2024'') (ascii ''01'') (ascii ''05'') (ascii ''99'')
      (ascii ''00'') (ascii ''00'')"
    by (simp add: iso_fields_def digit_run_def is_digit_def digit_val_def ascii_simps)
  have l2: "ascii ''2024-01-05 99:00:00 Alice: Hello'' =
      iso_line (ascii ''2024'') (ascii ''01'') (ascii ''05'') 32 (ascii ''99'') (ascii ''00'') (ascii ''00'')
        (ascii ''Alice'') (ascii '' Hello'')"
    by (simp add: iso_line_def ascii_simps)
  have 2: "parse_messages ascii_unidata (ascii ''2024-01-05 99:00:00 Alice: Hello'') = Inl ValueError"
    using invalid_calendar_value_raises [where U = ascii_unidata and y = "ascii ''2024''" and mo = "ascii ''01''" and d = "ascii ''05''"
          and h = "ascii ''99''" and mi = "ascii ''00''" and s = "ascii ''00''" and sp = 32
          and w = "ascii '' Hello''",
        OF s2 a, THEN conjunct1, THEN mp]
      f2 l2 v1
    by (simp add: i)
  have s3: "ascii ''[05.13.2024, 9:00:07] Alice: Hey'' \<in>
      set (splitlines (ascii ''[05.13.2024, 9:00:07] Alice: Hey''))"
    by (simp add: splitlines_def ascii_simps is_linebreak_def)
  have f3: "de_fields ascii_unidata (ascii ''05'') (ascii ''13'') (ascii ''2024'') (ascii ''9'')
      (ascii ''00'') (Some (ascii ''07''))"
    by (simp add: de_fields_def digit_run_def is_digit_def digit_val_def ascii_simps)
  have l3: "ascii ''[05.13.2024, 9:00:07] Alice: Hey'' =
      bracket_line (ascii ''05'') (ascii ''13'') (ascii ''2024'') (ascii ''9'') (ascii ''00'')
        (Some (ascii ''07'')) (ascii ''Alice'') (ascii '' Hey'')"
    by (simp add: bracket_line_def ascii_simps)
  have 3: "parse_messages ascii_unidata (ascii ''[05.13.2024, 9:00:07] Alice: Hey'') = Inl ValueError"
    using invalid_calendar_value_raises [where U = ascii_unidata and dd = "ascii ''05''" and mm = "ascii ''13''" and yy = "ascii ''2024''"
          and hh = "ascii ''9''" and mn = "ascii ''00''" and ss = "Some (ascii ''07'')"
          and w = "ascii '' Hey''",
        OF s3 a, THEN conjunct2, THEN mp]
      f3 l3 v1
    by (simp add: i)
  show ?thesis
    using 1 2 3 by simp
qed

section \<open>What is done to a line before matching\<close>

lemma clean_line_no_lf: "10 \<notin> set raw \<Longrightarrow> clean_line raw = strip_marks raw"
proof -
  assume "10 \<notin> set raw"
  then have "rstrip_chars [10] raw = raw"
    by (intro rstrip_chars_id) (cases raw rule: rev_cases; simp)
  then show ?thesis
    by (simp add: clean_line_def strip_marks_Nil)
qed

lemma step_depends_on_clean_line:
  "clean_line raw = clean_line raw' \<Longrightarrow> step U st raw = step U st raw'"
  by (simp add: step_def)

lemma leading_space_line:
  "norm_space (32 # ascii ''05.01.24, 9:00 - Alice: Hey'') = ascii ''05.01.24, 9:00 - Alice: Hey''"
  by (simp add: ascii_simps hdr_defs rx_defs)

lemma no_header_leading_space:
  "match_header ascii_unidata (32 # ascii ''05.01.24, 9:00 - Alice: Hey'') = Inr None"
  by (simp add: ascii_simps rx_defs hdr_defs)

lemma clean_line_leading_space:
  "clean_line (32 # ascii ''05.01.24, 9:00 - Alice: Hey'') = 32 # ascii ''05.01.24, 9:00 - Alice: Hey''"
  by (simp add: ascii_simps line_defs remove_char_def BOM_def LRM_def RLM_def LRE_def RLE_def PDF_def)

text \<open>
  C5, as the claim states it, fails: the line \<open>05.01.24, 9:00 - Alice: Hey\<close> with a
  space before it is a header once the text normalizer has trimmed it, but the loop does
  not trim, does not recognize it, and returns no message.
\<close>

theorem full_normalizer_counterexample:
  "match_header ascii_unidata (norm_space (32 # ascii ''05.01.24, 9:00 - Alice: Hey'')) =
     Inr (Some \<lparr>ts = \<lparr>year = 2024, month = 1, day = 5, hour = 9, minute = 0, second = 0\<rparr>,
                author = ascii ''Alice'', mtext = ascii ''Hey''\<rparr>) \<and>
   match_header ascii_unidata (clean_line (32 # ascii ''05.01.24, 9:00 - Alice: Hey'')) = Inr None \<and>
   parse_lines ascii_unidata [32 # ascii ''05.01.24, 9:00 - Alice: Hey''] = Inr []"
  by (simp add: leading_space_line header_alice_de clean_line_leading_space
      no_header_leading_space parse_lines_def step_def append_text_def all_msgs_def)

text \<open>
  C5, amended. For every raw line of the input, the six invisible marks (the byte-order
  mark and the five direction marks) are removed before header matching, and nothing
  else is changed: the loop treats the line exactly as it treats the line without the
  marks, so a header line with such marks before it or inside it is still recognized as a
  header. Non-breaking spaces are not replaced, and the line is neither trimmed nor
  collapsed before matching.
\<close>

theorem marks_removed_before_matching:
  assumes "10 \<notin> set raw"
  shows "clean_line raw = strip_marks raw \<and>
         step U st raw = step U st (strip_marks raw) \<and>
         (strip_marks raw \<noteq> [] \<and> match_header U (strip_marks raw) = Inr (Some m)
            \<longrightarrow> step U st raw = Inr (open_msg m st))"
proof -
  have c: "clean_line raw = strip_marks raw"
    using assms by (rule clean_line_no_lf)
  have "10 \<notin> set (strip_marks raw)"
    using assms by (simp add: strip_marks_filter)
  then have "clean_line (strip_marks raw) = strip_marks raw"
    by (simp add: clean_line_no_lf strip_marks_idem)
  then have "step U st raw = step U st (strip_marks raw)"
    using c by (intro step_depends_on_clean_line) simp
  moreover have "step U st raw = Inr (open_msg m st)"
    if "strip_marks raw \<noteq> []" "match_header U (strip_marks raw) = Inr (Some m)"
    using that c by (simp add: step_def)
  ultimately show ?thesis
    using c by blast
qed

theorem marks_removed_before_matching_witness:
  "10 \<notin> set (LRM # ascii ''05.01.24, 9:00 - '' @ LRE # ascii ''Alice: Hey'' @ [PDF]) \<and>
   strip_marks (LRM # ascii ''05.01.24, 9:00 - '' @ LRE # ascii ''Alice: Hey'' @ [PDF]) =
     ascii ''05.01.24, 9:00 - Alice: Hey'' \<and>
   step ascii_unidata ([], None) (LRM # ascii ''05.01.24, 9:00 - '' @ LRE # ascii ''Alice: Hey'' @ [PDF]) =
     Inr ([], Some \<lparr>ts = \<lparr>year = 2024, month = 1, day = 5, hour = 9, minute = 0, second = 0\<rparr>,
                     author = ascii ''Alice'', mtext = ascii ''Hey''\<rparr>)"
proof -
  let ?raw = "LRM # ascii ''05.01.24, 9:00 - '' @ LRE # ascii ''Alice: Hey'' @ [PDF]"
  let ?m = "\<lparr>ts = \<lparr>year = 2024, month = 1, day = 5, hour = 9, minute = 0, second = 0\<rparr>,
             author = ascii ''Alice'', mtext = ascii ''Hey''\<rparr>"
  have n: "10 \<notin> set ?raw"
    by (simp add: ascii_simps LRM_def LRE_def PDF_def)
  have s: "strip_marks ?raw = ascii ''05.01.24, 9:00 - Alice: Hey''"
    by (simp add: ascii_simps strip_marks_Cons strip_marks_Nil is_mark_def
        BOM_def LRM_def RLM_def LRE_def RLE_def PDF_def)
  have ne: "ascii ''05.01.24, 9:00 - Alice: Hey'' \<noteq> []"
    by (simp add: ascii_simps)
  have "step ascii_unidata ([], None) ?raw = Inr (open_msg ?m ([], None))"
    using marks_removed_before_matching [OF n, of ascii_unidata "([], None)" ?m]
    unfolding s using ne header_alice_de by blast
  then show ?thesis
    using n s by (simp add: open_msg_def all_msgs_def)
qed

section \<open>Lines without an author\<close>

lemma system_line_groups:
  "map_option (\<lambda>(r, g). (r, g 1, g 2, g 3, g 4))
     (re_match (pat_de_sys ascii_unidata) (ascii ''13.04.2019, 18:59:06 - Carolin joined'')) =
   Some ([], Some (ascii ''13.04.2019''), Some (ascii ''18:59''), Some (ascii ''06''),
         Some (ascii ''Carolin joined''))"
  by (simp add: ascii_simps pat_de_sys_def dash_def rx_defs)

lemma system_line_no_author_pattern:
  "re_match (pat_iso ascii_unidata) (ascii ''13.04.2019, 18:59:06 - Carolin joined'') = None"
  "re_match (pat_de ascii_unidata) (ascii ''13.04.2019, 18:59:06 - Carolin joined'') = None"
  "re_match (pat_bracket ascii_unidata) (ascii ''13.04.2019, 18:59:06 - Carolin joined'') = None"
  by (simp_all add: ascii_simps rx_defs)

lemma clean_line_system_line:
  "clean_line (ascii ''13.04.2019, 18:59:06 - Carolin joined'') = ascii ''13.04.2019, 18:59:06 - Carolin joined''"
  by (simp add: ascii_simps line_defs remove_char_def BOM_def LRM_def RLM_def LRE_def RLE_def PDF_def)

lemma system_line_not_Nil: "ascii ''13.04.2019, 18:59:06 - Carolin joined'' \<noteq> []"
  by (simp add: ascii_simps)

text \<open>
  C3. The source compiles the three patterns for lines without an author and names the
  author \<open>System\<close>, but \<open>parse_messages\<close> applies none of them. The line
  \<open>13.04.2019, 18:59:06 - Carolin joined\<close> matches none of the three patterns with an
  author and does match \<open>_pat_de_sys\<close>, yet no message is created for it: alone it is
  dropped, and after a header it is added to the text of that message.
\<close>

theorem system_notice_counterexample:
  "re_match (pat_iso ascii_unidata) (ascii ''13.04.2019, 18:59:06 - Carolin joined'') = None \<and>
   re_match (pat_de ascii_unidata) (ascii ''13.04.2019, 18:59:06 - Carolin joined'') = None \<and>
   re_match (pat_bracket ascii_unidata) (ascii ''13.04.2019, 18:59:06 - Carolin joined'') = None \<and>
   re_match (pat_de_sys ascii_unidata) (ascii ''13.04.2019, 18:59:06 - Carolin joined'') \<noteq> None \<and>
   parse_lines ascii_unidata [ascii ''13.04.2019, 18:59:06 - Carolin joined''] = Inr [] \<and>
   parse_lines ascii_unidata
     [ascii ''2024-01-05 09:00:00 Alice: Hello'', ascii ''13.04.2019, 18:59:06 - Carolin joined''] =
   Inr [\<lparr>ts = \<lparr>year = 2024, month = 1, day = 5, hour = 9, minute = 0, second = 0\<rparr>,
         author = ascii ''Alice'',
         mtext = ascii ''Hello'' @ 10 # ascii ''13.04.2019, 18:59:06 - Carolin joined''\<rparr>]"
proof -
  have h: "match_header ascii_unidata (ascii ''13.04.2019, 18:59:06 - Carolin joined'') = Inr None"
    by (simp add: match_header_def system_line_no_author_pattern)
  have a: "ascii ''2024-01-05 09:00:00 Alice: Hello'' \<noteq> []"
    by (simp add: ascii_simps)
  have s: "re_match (pat_de_sys ascii_unidata) (ascii ''13.04.2019, 18:59:06 - Carolin joined'') \<noteq> None"
    using system_line_groups by auto
  have 1: "parse_lines ascii_unidata [ascii ''13.04.2019, 18:59:06 - Carolin joined''] = Inr []"
    using system_line_not_Nil
    by (simp add: parse_lines_def step_def clean_line_system_line h append_text_def all_msgs_def)
  have 2: "parse_lines ascii_unidata
     [ascii ''2024-01-05 09:00:00 Alice: Hello'', ascii ''13.04.2019, 18:59:06 - Carolin joined''] =
   Inr [\<lparr>ts = \<lparr>year = 2024, month = 1, day = 5, hour = 9, minute = 0, second = 0\<rparr>,
         author = ascii ''Alice'',
         mtext = ascii ''Hello'' @ 10 # ascii ''13.04.2019, 18:59:06 - Carolin joined''\<rparr>]"
    using system_line_not_Nil a
    by (simp add: parse_lines_def step_def clean_line_system_line clean_line_ascii_examples h
        header_alice open_msg_def append_text_def all_msgs_def)
  show ?thesis
    using system_line_no_author_pattern s 1 2 by blast
qed

section \<open>The URLs of a text\<close>

lemma first_occurrences_Nil: "first_occurrences [] = []"
  by (simp add: first_occurrences_def)

lemma first_occurrences_snoc:
  "first_occurrences (xs @ [x]) =
     (if x \<in> set xs then first_occurrences xs else first_occurrences xs @ [x])"
proof -
  have f: "filter (\<lambda>i. (xs @ [x]) ! i \<notin> set (take i (xs @ [x]))) [0..<length xs] =
      filter (\<lambda>i. xs ! i \<notin> set (take i xs)) [0..<length xs]"
    by (rule filter_cong [OF refl]) (auto simp: nth_append)
  have m: "map (nth (xs @ [x])) (filter (\<lambda>i. xs ! i \<notin> set (take i xs)) [0..<length xs]) =
      map (nth xs) (filter (\<lambda>i. xs ! i \<notin> set (take i xs)) [0..<length xs])"
    by (rule map_cong [OF refl]) (auto simp: nth_append)
  have u: "[0..<length (xs @ [x])] = [0..<length xs] @ [length xs]"
    by simp
  show ?thesis
    unfolding first_occurrences_def u filter_append map_append f m by simp
qed

lemma set_first_occurrences: "set (first_occurrences xs) = set xs"
  by (induction xs rule: rev_induct) (auto simp: first_occurrences_Nil first_occurrences_snoc)

lemma distinct_first_occurrences: "distinct (first_occurrences xs)"
  by (induction xs rule: rev_induct)
    (auto simp: first_occurrences_Nil first_occurrences_snoc set_first_occurrences)

lemma unique_stable_first_occurrences:
  "unique_stable (set pre) (first_occurrences pre) us = first_occurrences (pre @ us)"
proof (induction us arbitrary: pre)
  case Nil
  then show ?case by simp
next
  case (Cons u us)
  have "insert u (set pre) = set (pre @ [u])" by simp
  then show ?case
    using Cons [of "pre @ [u]"] by (auto simp: first_occurrences_snoc insert_absorb)
qed

lemma rstrip_chars_last:
  "rstrip_chars cs s = [] \<or> last (rstrip_chars cs s) \<notin> set cs"
proof (cases "dropWhile (\<lambda>c. c \<in> set cs) (rev s)")
  case Nil
  then show ?thesis by (simp add: rstrip_chars_def)
next
  case (Cons x xs)
  then have "x \<notin> set cs"
    using hd_dropWhile [of "\<lambda>c. c \<in> set cs" "rev s"] by auto
  then show ?thesis
    using Cons by (simp add: rstrip_chars_def)
qed

lemma extract_urls_first_occurrences:
  "extract_urls text = first_occurrences (map (rstrip_chars url_punct) (finditer url_re 0 text))"
  using unique_stable_first_occurrences [of "[]"]
  by (simp add: extract_urls_def first_occurrences_Nil)

lemma rep_url_chars:
  "(s', g') \<in> set (matches (Rep url_char 1 None True) t g) \<Longrightarrow>
   \<exists>k. 1 \<le> k \<and> k \<le> length t \<and> s' = drop k t \<and> g' = g \<and> list_all url_char (take k t)"
proof -
  assume "(s', g') \<in> set (matches (Rep url_char 1 None True) t g)"
  then obtain k where k: "k \<in> set (rep_counts url_char 1 None True t)" "s' = drop k t" "g' = g"
    by auto
  then have kk: "1 \<le> k" "k \<le> length (takeWhile url_char t)"
    by (auto simp: rep_counts_set)
  then have "k \<le> length t" using length_takeWhile_le [of url_char t] by simp
  moreover have "list_all url_char (take k t)"
  proof -
    have "take k t = take k (takeWhile url_char t)"
      using kk(2) by (metis takeWhile_dropWhile_id take_append take_all_iff append_Nil2 diff_is_0_eq take_0)
    then show ?thesis
      by (metis list_all_iff in_set_takeD set_takeWhileD)
  qed
  ultimately show ?thesis using k kk by blast
qed

lemma matches_Seq_Cls_Cons:
  "matches (Seq (Cls p) R) (x # xs) g = (if p x then matches R xs g else [])"
  by simp

lemma url_tail:
  assumes "(s', g') \<in> set (matches (seqs [Lit 58, Lit 47, Lit 47, Rep url_char 1 None True]) r g)"
  shows "\<exists>t k. r = 58 # 47 # 47 # t \<and> 1 \<le> k \<and> k \<le> length t \<and> s' = drop k t \<and> g' = g \<and>
           list_all url_char (take k t)"
proof -
  from assms obtain t where r: "r = 58 # 47 # 47 # t"
    by (auto split: list.splits if_splits)
  with assms have "(s', g') \<in> set (matches (Rep url_char 1 None True) t g)"
    by simp
  from rep_url_chars [OF this] r show ?thesis by blast
qed

lemma url_re_token:
  assumes "re_match url_re s = Some (rest, g)"
  shows "\<exists>u. g 1 = Some u \<and> url_token u \<and> s = u @ rest"
proof -
  let ?R = "seqs [Lit 58, Lit 47, Lit 47, Rep url_char 1 None True]"
  let ?S = "Cls (\<lambda>c. c = 115 \<or> c = 83 \<or> c = 383)"
  from assms obtain c1 c2 c3 c4 r where s: "s = c1 # c2 # c3 # c4 # r"
    and c: "c1 = 104 \<or> c1 = 72" "c2 = 116 \<or> c2 = 84" "c3 = 116 \<or> c3 = 84" "c4 = 112 \<or> c4 = 80"
    by (auto simp: re_match_def url_re_def split: list.splits if_splits)
  define L where "L = matches (Seq (Opt ?S) ?R) r Map.empty"
  have "matches url_re s Map.empty =
      map (\<lambda>(s', g'). (s', g'(1 \<mapsto> take (length s - length s') s))) L"
    unfolding url_re_def s seqs.simps matches.simps(5) matches_Seq_Cls_Cons L_def
    by (simp only: c if_True)
  moreover have "(rest, g) \<in> set (matches url_re s Map.empty)"
    using assms by (auto simp: re_match_def split: list.splits)
  ultimately obtain g0 where "(rest, g0) \<in> set L"
    and g: "g = g0(1 \<mapsto> take (length s - length rest) s)"
    by auto
  then have in_tail: "(rest, g0) \<in> set (matches (Seq (Opt ?S) ?R) r Map.empty)"
    by (simp only: L_def)
  from in_tail consider
      (with_s) sc r' where "r = sc # r'" "sc = 115 \<or> sc = 83 \<or> sc = 383"
        "(rest, g0) \<in> set (matches ?R r' Map.empty)"
    | (without_s) "(rest, g0) \<in> set (matches ?R r Map.empty)"
    by (cases r) (auto split: if_splits)
  then show ?thesis
  proof cases
    case with_s
    from url_tail [OF with_s(3)] obtain t k where
      t: "r' = 58 # 47 # 47 # t" "1 \<le> k" "k \<le> length t" "rest = drop k t"
        "list_all url_char (take k t)"
      by blast
    let ?u = "c1 # c2 # c3 # c4 # sc # 58 # 47 # 47 # take k t"
    have "s = ?u @ rest" using s with_s(1) t by simp
    moreover have "length s - length rest = Suc (Suc (Suc (Suc (Suc (Suc (Suc (Suc k)))))))"
      using s with_s(1) t by simp
    then have "take (length s - length rest) s = ?u"
      using s with_s(1) t(1) by simp
    moreover have "url_token ?u"
      using c with_s(2) t(2,3,5) by auto
    ultimately show ?thesis using g by auto
  next
    case without_s
    from url_tail [OF without_s] obtain t k where
      t: "r = 58 # 47 # 47 # t" "1 \<le> k" "k \<le> length t" "rest = drop k t"
        "list_all url_char (take k t)"
      by blast
    let ?u = "c1 # c2 # c3 # c4 # 58 # 47 # 47 # take k t"
    have "s = ?u @ rest" using s t by simp
    moreover have "length s - length rest = Suc (Suc (Suc (Suc (Suc (Suc (Suc k))))))"
      using s t by simp
    then have "take (length s - length rest) s = ?u"
      using s t(1) by simp
    moreover have "url_token ?u"
      using c t(2,3,5) by auto
    ultimately show ?thesis using g by auto
  qed
qed

lemma finditer_tokens_gen:
  "r = url_re \<Longrightarrow> u \<in> set (finditer r k s) \<Longrightarrow> url_token u"
proof (induction r k s rule: finditer.induct)
  case (1 r skip)
  then show ?case by simp
next
  case (2 r skip c cs)
  show ?case
  proof (cases "0 < skip")
    case True
    then show ?thesis using 2 by simp
  next
    case False
    show ?thesis
    proof (cases "re_match r (c # cs)")
      case None
      then show ?thesis using 2 False by simp
    next
      case (Some m)
      obtain rest g where m: "m = (rest, g)" by (cases m)
      from url_re_token [of "c # cs" rest g] Some m "2.prems"(1) obtain v where
        v: "g 1 = Some v" "url_token v" by auto
      from "2.prems" False Some m v(1)
      have "u = v \<or> u \<in> set (finditer r (length (c # cs) - length rest - 1) cs)"
        by auto
      moreover have "url_token u"
        if "u \<in> set (finditer r (length (c # cs) - length rest - 1) cs)"
        using "2.IH"(3) [OF False Some m [symmetric] "2.prems"(1) that] .
      ultimately show ?thesis using v(2) by auto
    qed
  qed
qed

lemma finditer_tokens: "u \<in> set (finditer url_re k s) \<Longrightarrow> url_token u"
  by (rule finditer_tokens_gen [OF refl])

lemma url_punct_set: "set url_punct = {41, 46, 44, 59, 58, 33, 63, 93, 34, 39}"
  by (simp add: url_punct_def)

text \<open>
  C8. \<open>extract_urls\<close> returns the tokens that the scan for \<open>http(s)://\<close> finds, each
  without the sentence punctuation at its end, and every distinct one once, at the place
  where it is seen first: the result is the list of the first occurrences of the stripped
  tokens, it has no entry twice, its entries are exactly the stripped tokens, none of them
  ends with one of the punctuation characters, and every token found is a token of the
  pattern.
\<close>

theorem extract_urls_first_seen:
  "extract_urls text = first_occurrences (map (rstrip_chars url_punct) (finditer url_re 0 text)) \<and>
   distinct (extract_urls text) \<and>
   set (extract_urls text) = rstrip_chars url_punct ` set (finditer url_re 0 text) \<and>
   list_all (\<lambda>u. u = [] \<or> last u \<notin> set url_punct) (extract_urls text) \<and>
   list_all url_token (finditer url_re 0 text)"
proof -
  let ?urls = "map (rstrip_chars url_punct) (finditer url_re 0 text)"
  have e: "extract_urls text = first_occurrences ?urls"
    by (rule extract_urls_first_occurrences)
  have s: "set (extract_urls text) = rstrip_chars url_punct ` set (finditer url_re 0 text)"
    unfolding e by (simp add: set_first_occurrences)
  have "\<forall>u \<in> set (extract_urls text). u = [] \<or> last u \<notin> set url_punct"
    unfolding s using rstrip_chars_last [of url_punct] by blast
  then have "list_all (\<lambda>u. u = [] \<or> last u \<notin> set url_punct) (extract_urls text)"
    by (simp add: list_all_iff)
  moreover have "list_all url_token (finditer url_re 0 text)"
    using finditer_tokens by (auto simp: list_all_iff)
  ultimately show ?thesis
    using e s distinct_first_occurrences [of ?urls] by simp
qed

lemma finditer_example:
  "finditer url_re 0 (ascii ''see http://a.b/c. and (HTTPS://x.y) http://a.b/c!'') =
     [ascii ''http://a.b/c.'', ascii ''HTTPS://x.y)'', ascii ''http://a.b/c!'']"
  by (simp add: ascii_simps url_re_def url_char_def re_match_def rep_counts_def is_space_def Let_def)

theorem extract_urls_first_seen_witness:
  "extract_urls (ascii ''see http://a.b/c. and (HTTPS://x.y) http://a.b/c!'') =
     [ascii ''http://a.b/c'', ascii ''HTTPS://x.y'']"
proof -
  have "extract_urls (ascii ''see http://a.b/c. and (HTTPS://x.y) http://a.b/c!'') =
      first_occurrences (map (rstrip_chars url_punct)
        (finditer url_re 0 (ascii ''see http://a.b/c. and (HTTPS://x.y) http://a.b/c!'')))"
    using extract_urls_first_seen [of "ascii ''see http://a.b/c. and (HTTPS://x.y) http://a.b/c!''"]
    by (rule conjunct1)
  also have "\<dots> = first_occurrences [ascii ''http://a.b/c'', ascii ''HTTPS://x.y'', ascii ''http://a.b/c'']"
    unfolding finditer_example
    by (simp add: ascii_simps rstrip_chars_def url_punct_def)
  also have "\<dots> = [ascii ''http://a.b/c'', ascii ''HTTPS://x.y'']"
    by (simp add: first_occurrences_def ascii_simps upt_rec)
  finally show ?thesis .
qed


section \<open>The cache of the link previews\<close>










end
